theory Spec2Isabelle
  imports Complex_Main "HOL-Library.Log_Nat"
begin

section \<open>Strings\<close>

text \<open>
  A Python \<open>str\<close> is a sequence of code points. It is modelled by \<open>string\<close>, one
  \<open>char\<close> per code point, the \<open>char\<close> of number \<open>n\<close> standing for the code point
  U+00\<open>n\<close>: the model covers the strings whose code points are below 256. On that
  range \<open>str.lower()\<close> maps A..Z and the capital letters U+00C0..U+00DE (the
  multiplication sign U+00D7 apart) to the letter 32 places further, and the
  regular-expression class \<open>\d\<close> holds the ten digits 0..9 and nothing else.
\<close>

definition newline :: char where
  "newline = CHR 0x0A"

definition space :: char where
  "space = CHR '' ''"

definition is_digit :: "char \<Rightarrow> bool" where
  "is_digit c = (48 \<le> (of_char c :: nat) \<and> (of_char c :: nat) \<le> 57)"

definition lower_char :: "char \<Rightarrow> char" where
  "lower_char c =
     (let n = (of_char c :: nat)
      in if (65 \<le> n \<and> n \<le> 90) \<or> (192 \<le> n \<and> n \<le> 222 \<and> n \<noteq> 215)
         then char_of (n + 32) else c)"

text \<open>\<open>s.lower()\<close>\<close>

definition lower :: "string \<Rightarrow> string" where
  "lower s = map lower_char s"

text \<open>\<open>re.sub("\d", "0", s)\<close>: every digit becomes the character 0.\<close>

definition sub_digits :: "string \<Rightarrow> string" where
  "sub_digits s = map (\<lambda>c. if is_digit c then CHR ''0'' else c) s"

text \<open>\<open>re.search("\d", s)\<close>, read as a truth value: some character of \<open>s\<close> is a digit.\<close>

definition search_digit :: "string \<Rightarrow> bool" where
  "search_digit s = list_ex is_digit s"

text \<open>
  \<open>re.match("^$", line)\<close>: the pattern matches the empty string, and the string made
  of one newline (\<open>$\<close> also matches just before a newline that ends the string).
\<close>

definition match_blank :: "string \<Rightarrow> bool" where
  "match_blank line = (line = [] \<or> line = [newline])"

text \<open>\<open>line.rstrip("\n")\<close>: all the newlines at the end are removed.\<close>

definition rstrip_nl :: "string \<Rightarrow> string" where
  "rstrip_nl s = rev (dropWhile (\<lambda>c. c = newline) (rev s))"

text \<open>
  \<open>s.split(" ")\<close>: the pieces between single spaces, empty pieces kept; the empty
  string gives one empty piece.
\<close>

fun split :: "string \<Rightarrow> string list" where
  "split [] = [[]]"
| "split (c # cs) =
     (if c = space then [] # split cs
      else (case split cs of [] \<Rightarrow> [[c]] | w # ws \<Rightarrow> (c # w) # ws))"

text \<open>\<open>" ".join(toks)\<close>\<close>

fun join :: "string list \<Rightarrow> string" where
  "join [] = []"
| "join [t] = t"
| "join (t # u # ts) = t @ space # join (u # ts)"

section \<open>Token tables\<close>

text \<open>
  A \<open>defaultdict(int)\<close> is an association list without repeated keys, in the order
  the keys were inserted, which is the order \<open>items()\<close> gives them in. Counts are
  Python integers.
\<close>

type_synonym table = "(string \<times> int) list"

text \<open>Reading \<open>d[k]\<close>: a missing key reads as 0.\<close>

definition get :: "table \<Rightarrow> string \<Rightarrow> int" where
  "get d k = (case map_of d k of None \<Rightarrow> 0 | Some v \<Rightarrow> v)"

text \<open>\<open>d[k] += v\<close>: a present key keeps its place, a new key goes to the end.\<close>

fun incr :: "table \<Rightarrow> string \<Rightarrow> int \<Rightarrow> table" where
  "incr [] k v = [(k, 0 + v)]"
| "incr ((k', c) # d) k v =
     (if k' = k then (k', c + v) # d else (k', c) # incr d k v)"

section \<open>Counting the tokens of a document\<close>

text \<open>
  The token as \<open>_gather_token_count\<close> normalizes it (lines 115 to 119 of
  \<open>w2v.py\<close>) before counting it.
\<close>

definition count_token :: "bool \<Rightarrow> bool \<Rightarrow> string \<Rightarrow> string" where
  "count_token lowercase replace_digits token_str =
     (let token_str = (if lowercase then lower token_str else token_str);
          token_str = (if replace_digits then sub_digits token_str else token_str)
      in token_str)"

text \<open>
  The loop of \<open>_gather_token_count\<close> over the lines that iterating the opened file
  yields (each with its newline, the last one possibly without).
\<close>

definition count_lines :: "bool \<Rightarrow> bool \<Rightarrow> string list \<Rightarrow> table" where
  "count_lines lowercase replace_digits lines =
     fold (\<lambda>line document_tokens.
             if match_blank line then document_tokens
             else fold (\<lambda>token_str d. incr d (count_token lowercase replace_digits token_str) 1)
                       (split (rstrip_nl line)) document_tokens)
          lines []"

section \<open>Rewriting a document\<close>

definition unk :: string where
  "unk = ''#unk#''"

text \<open>
  The token as \<open>_write_file\<close> writes it (lines 162 to 171): normalized, then
  replaced by the marker when it is in the singleton set.
\<close>

definition write_token :: "bool \<Rightarrow> bool \<Rightarrow> string set \<Rightarrow> string \<Rightarrow> string" where
  "write_token lowercase replace_digits singletons tok =
     (let tok = (if lowercase then lower tok else tok);
          tok = (if replace_digits then sub_digits tok else tok);
          tok = (if tok \<in> singletons then unk else tok)
      in tok)"

text \<open>The lines \<open>_write_file\<close> writes for the lines of one source file.\<close>

definition write_lines :: "bool \<Rightarrow> bool \<Rightarrow> string set \<Rightarrow> string list \<Rightarrow> string list" where
  "write_lines lowercase replace_digits singletons lines =
     concat (map (\<lambda>line.
                    if match_blank line then []
                    else [join (map (write_token lowercase replace_digits singletons)
                                    (split (rstrip_nl line))) @ [newline]])
                 lines)"

section \<open>Floating-point numbers\<close>

text \<open>
  A Python \<open>float\<close> is an IEEE 754 double. The finite doubles are rational numbers,
  and an operation on doubles returns the exact result rounded to the nearest double,
  a tie going to the double whose 53-bit significand is even. \<open>fl\<close> is that rounding,
  with no bound on the exponent: it is the rounding of the machine for every value
  between \<open>2 ^ 1024\<close> and \<open>1 / 2 ^ 1022\<close> in magnitude, which holds of every number
  computed from lengths and indices of lists (both below \<open>2 ^ 63\<close>).
\<close>

text \<open>
  Rounding to the nearest integer, a tie going to the even one: Python's \<open>round\<close> of
  a float.
\<close>

definition py_round :: "rat \<Rightarrow> int" where
  "py_round x =
     (let f = \<lfloor>x\<rfloor>; r = x - of_int f
      in if r < 1 / 2 then f else if 1 / 2 < r then f + 1
         else if even f then f else f + 1)"

text \<open>The exponent of a positive number \<open>x\<close>: the \<open>e\<close> with \<open>2 ^ e \<le> x < 2 ^ (e + 1)\<close>.\<close>

definition expo :: "rat \<Rightarrow> int" where
  "expo x =
     (if 1 \<le> x then int (floorlog 2 (nat \<lfloor>x\<rfloor>)) - 1
      else - int (floorlog 2 (nat (\<lceil>1 / x\<rceil> - 1))))"

definition fl :: "rat \<Rightarrow> rat" where
  "fl x =
     (if x = 0 then 0
      else (case 2 powi (expo \<bar>x\<bar> - 52) of u \<Rightarrow> of_int (py_round (x / u)) * u))"

text \<open>\<open>a / b\<close> for two integers, \<open>b\<close> not zero: the quotient, correctly rounded.\<close>

definition truediv :: "int \<Rightarrow> int \<Rightarrow> rat" where
  "truediv a b = fl (of_int a / of_int b)"

text \<open>\<open>x * i\<close> for a float \<open>x\<close> and an integer \<open>i\<close>: \<open>i\<close> is converted, then multiplied.\<close>

definition mul_int :: "rat \<Rightarrow> int \<Rightarrow> rat" where
  "mul_int x i = fl (x * fl (of_int i))"

section \<open>Chunking the file list\<close>

datatype error =
  NotFoundError | IOError | DecodeError | ConfigError | ValueError | ZeroDivisionError | ReError

text \<open>
  The first four errors are those the specification names; \<open>IOError\<close> is what opening
  a file raises and \<open>DecodeError\<close> what decoding it raises. \<open>ValueError\<close> is raised
  by joblib, \<open>ZeroDivisionError\<close> by a division, and \<open>ReError\<close>, which is \<open>re.error\<close>,
  by a regular expression that does not compile.
\<close>

text \<open>An index of a slice, for a list of \<open>n\<close> elements: negative indices count from the end.\<close>

definition clamp :: "int \<Rightarrow> int \<Rightarrow> nat" where
  "clamp n i = nat (if i < 0 then max 0 (n + i) else min i n)"

text \<open>\<open>the_list[a:b]\<close>\<close>

definition slice :: "'a list \<Rightarrow> int \<Rightarrow> int \<Rightarrow> 'a list" where
  "slice the_list a b =
     (case clamp (int (length the_list)) a of lo \<Rightarrow>
        take (clamp (int (length the_list)) b - lo) (drop lo the_list))"

text \<open>\<open>range(n)\<close>\<close>

definition range :: "int \<Rightarrow> int list" where
  "range n = map int [0..<nat n]"

definition chunk_list :: "'a list \<Rightarrow> int \<Rightarrow> error + 'a list list" where
  "chunk_list the_list nb_parts =
     (if nb_parts = 0 then Inl ZeroDivisionError
      else (case truediv (int (length the_list)) nb_parts of division \<Rightarrow>
        Inr (map (\<lambda>i. slice the_list (py_round (mul_int division i))
                                     (py_round (mul_int division (i + 1))))
                 (range nb_parts))))"

text \<open>
  The position \<open>round(division * i)\<close> of line 188, for a list of \<open>len\<close> elements.
\<close>

definition boundary :: "nat \<Rightarrow> int \<Rightarrow> int \<Rightarrow> int" where
  "boundary len nb_parts i = py_round (mul_int (truediv (int len) nb_parts) i)"

section \<open>The input tree\<close>

text \<open>
  A file is unreadable, or is not UTF-8, or is a text: the lines that iterating over it
  yields. A directory holds named files and named directories. A path is the list of
  the names on the way from the root of the file system: what \<open>os.path.abspath\<close>
  returns, split at the separators.
\<close>

datatype content = Unreadable | Undecodable | Text "string list"

datatype dirtree = Dir "(string \<times> content) list" "(string \<times> dirtree) list"

type_synonym path = "string list"

fun lookup_dir :: "dirtree \<Rightarrow> path \<Rightarrow> dirtree option" where
  "lookup_dir t [] = Some t"
| "lookup_dir (Dir files dirs) (d # ds) =
     (case map_of dirs d of None \<Rightarrow> None | Some t \<Rightarrow> lookup_dir t ds)"

text \<open>
  \<open>os.walk(dirpath)\<close>, top-down, with its default \<open>onerror=None\<close>: a directory that cannot
  be listed, as one that does not exist, is skipped without an error.
\<close>

fun walk :: "path \<Rightarrow> dirtree \<Rightarrow> (path \<times> string list \<times> string list) list" where
  "walk dirpath (Dir files dirs) =
     (dirpath, map fst dirs, map fst files)
       # concat (map (\<lambda>e. walk (dirpath @ [fst e]) (snd e)) dirs)"

definition os_walk :: "dirtree \<Rightarrow> path \<Rightarrow> (path \<times> string list \<times> string list) list" where
  "os_walk fs dirpath =
     (case lookup_dir fs dirpath of None \<Rightarrow> [] | Some t \<Rightarrow> walk dirpath t)"

text \<open>
  Opening \<open>os.path.join(root, filename)\<close> for reading as UTF-8 and iterating over its
  lines.
\<close>

definition read_lines :: "dirtree \<Rightarrow> path \<Rightarrow> string \<Rightarrow> error + string list" where
  "read_lines fs root_path filename =
     (case lookup_dir fs root_path of
        None \<Rightarrow> Inl IOError
      | Some (Dir files dirs) \<Rightarrow>
          (case map_of files filename of
             None \<Rightarrow> Inl IOError
           | Some Unreadable \<Rightarrow> Inl IOError
           | Some Undecodable \<Rightarrow> Inl DecodeError
           | Some (Text lines) \<Rightarrow> Inr lines))"

text \<open>
  \<open>re.match("^.*\.txt$", filename)\<close>: the name ends with \<open>.txt\<close>, or with \<open>.txt\<close> and
  one newline, and has no newline before that (the dot of the pattern matches none).
\<close>

definition match_txt :: "string \<Rightarrow> bool" where
  "match_txt filename =
     (case (if filename \<noteq> [] \<and> last filename = newline then butlast filename else filename)
      of s \<Rightarrow> newline \<notin> set s \<and> 4 \<le> length s \<and> drop (length s - 4) s = ''.txt'')"

text \<open>
  The string of a path: every name after a separator, and the separator alone for the
  root of the file system. For a directory met by the walk it is the \<open>root\<close> that
  \<open>os.walk\<close> yields: \<open>os.path.join\<close> of the string of its parent and of its name.
\<close>

definition path_str :: "path \<Rightarrow> string" where
  "path_str p = (if p = [] then ''/'' else concat (map (\<lambda>name. CHR ''/'' # name) p))"

text \<open>
  \<open>re.sub(pattern, "", s)\<close> of line 39, where the pattern is the string of the input
  directory: the matches of the pattern in \<open>s\<close>, found from left to right and without
  overlap, are deleted, and a pattern that does not compile raises \<open>re.error\<close>.

  In a pattern without a backslash and without any of the characters
  \<open>^ $ * + ? { } [ ] |\<close>, a parenthesis opens or closes a group, a dot stands for any
  character but the newline, and every other character stands for itself. Such a pattern compiles when its parentheses are
  balanced; it matches the strings that agree with it character by character, the
  parentheses left out.

  What \<open>re\<close> makes of a pattern that has one of those characters is not written out:
  it is the parameter \<open>re_other\<close>, whose value is \<open>None\<close> where \<open>re\<close> raises \<open>re.error\<close>.
  What is proved below holds for every \<open>re_other\<close>.
\<close>

type_synonym re_lib = "string \<Rightarrow> string \<Rightarrow> string option"

definition special :: "char \<Rightarrow> bool" where
  "special c = (c = CHR 0x5C \<or> c \<in> set ''^$*+?{}[]|'')"

fun balanced :: "nat \<Rightarrow> string \<Rightarrow> bool" where
  "balanced depth [] = (depth = 0)"
| "balanced depth (c # cs) =
     (if c = CHR ''('' then balanced (depth + 1) cs
      else if c = CHR '')'' then 0 < depth \<and> balanced (depth - 1) cs
      else balanced depth cs)"

definition match_char :: "char \<Rightarrow> char \<Rightarrow> bool" where
  "match_char p c = (if p = CHR ''.'' then c \<noteq> newline else p = c)"

text \<open>The pattern matches at the start of the string.\<close>

fun match_here :: "string \<Rightarrow> string \<Rightarrow> bool" where
  "match_here [] s = True"
| "match_here (p # ps) [] = False"
| "match_here (p # ps) (c # cs) = (match_char p c \<and> match_here ps cs)"

text \<open>
  Deleting the matches: \<open>skip\<close> is the number of characters of the current match
  that are still to be passed over.
\<close>

fun delete_matches :: "string \<Rightarrow> nat \<Rightarrow> string \<Rightarrow> string" where
  "delete_matches ps skip [] = []"
| "delete_matches ps skip (c # cs) =
     (if 0 < skip then delete_matches ps (skip - 1) cs
      else if ps \<noteq> [] \<and> match_here ps (c # cs) then delete_matches ps (length ps - 1) cs
      else c # delete_matches ps 0 cs)"

definition re_sub :: "re_lib \<Rightarrow> string \<Rightarrow> string \<Rightarrow> error + string" where
  "re_sub re_other pattern s =
     (if list_ex special pattern
      then (case re_other pattern s of None \<Rightarrow> Inl ReError | Some r \<Rightarrow> Inr r)
      else if balanced 0 pattern
      then Inr (delete_matches (filter (\<lambda>c. c \<noteq> CHR ''('' \<and> c \<noteq> CHR '')'') pattern) 0 s)
      else Inl ReError)"

text \<open>
  Modelled from the spec: \<open>remove_abs\<close> of \<open>tools.py\<close> is not among the sources. Line 39
  applies it to what is left of \<open>root\<close>, and the specification says that the result is a
  relative path, empty for the files at the top: the separators at the start are removed.
\<close>

definition remove_abs :: "string \<Rightarrow> string" where
  "remove_abs p = dropWhile (\<lambda>c. c = CHR ''/'') p"

text \<open>\<open>remove_abs(re.sub(os.path.abspath(input_dir), "", root))\<close> of line 39.\<close>

definition subdir_of :: "re_lib \<Rightarrow> path \<Rightarrow> path \<Rightarrow> error + string" where
  "subdir_of re_other input_dir root_path =
     (case re_sub re_other (path_str input_dir) (path_str root_path) of
        Inl e \<Rightarrow> Inl e
      | Inr s \<Rightarrow> Inr (remove_abs s))"

type_synonym document = "path \<times> string \<times> string"

section \<open>The pipeline\<close>

text \<open>An exception ends the computation: what follows runs on a result only.\<close>

definition and_then :: "error + 'a \<Rightarrow> ('a \<Rightarrow> error + 'b) \<Rightarrow> error + 'b" where
  "and_then r f = (case r of Inl e \<Rightarrow> Inl e | Inr x \<Rightarrow> f x)"

text \<open>Running the tasks of a list in its order; the first error ends the run.\<close>

fun traverse :: "('a \<Rightarrow> error + 'b) \<Rightarrow> 'a list \<Rightarrow> error + 'b list" where
  "traverse f [] = Inr []"
| "traverse f (x # xs) =
     and_then (f x) (\<lambda>y. and_then (traverse f xs) (\<lambda>ys. Inr (y # ys)))"

text \<open>
  Collecting filenames (lines 33 to 40): the directories in the order of the walk, the
  matching files of each in their order. The first \<open>re.error\<close> ends the collection.
\<close>

definition collect :: "re_lib \<Rightarrow> dirtree \<Rightarrow> path \<Rightarrow> error + document list" where
  "collect re_other fs input_dir =
     and_then
       (traverse (\<lambda>(root_path, dirs, files).
                    traverse (\<lambda>filename.
                                and_then (subdir_of re_other input_dir root_path)
                                  (\<lambda>subdir. Inr (root_path, filename, subdir)))
                             (filter match_txt files))
                 (os_walk fs input_dir))
       (\<lambda>found. Inr (concat found))"

text \<open>
  \<open>Parallel(n_jobs=n_jobs)(delayed(f)(x) for x in tasks)\<close> of joblib: the results in
  the order of the tasks. joblib refuses \<open>n_jobs = 0\<close> with a \<open>ValueError\<close>, and takes a
  negative \<open>n_jobs\<close> as a number of processors to leave idle. The model runs the
  tasks one after the other, in their order.
\<close>

definition Parallel :: "int \<Rightarrow> ('a \<Rightarrow> error + 'b) \<Rightarrow> 'a list \<Rightarrow> error + 'b list" where
  "Parallel n_jobs f tasks = (if n_jobs = 0 then Inl ValueError else traverse f tasks)"

definition gather_token_count ::
  "dirtree \<Rightarrow> path \<Rightarrow> string \<Rightarrow> bool \<Rightarrow> bool \<Rightarrow> error + table" where
  "gather_token_count fs root_path filename lowercase replace_digits =
     and_then (read_lines fs root_path filename)
       (\<lambda>lines. Inr (count_lines lowercase replace_digits lines))"

text \<open>Combining results (lines 53 to 60): the global table and the number of tokens.\<close>

definition combine :: "table list \<Rightarrow> table \<times> int" where
  "combine results =
     fold (\<lambda>result acc.
             fold (\<lambda>(k, v) (all_tokens, token_nb). (incr all_tokens k v, token_nb + v))
                  result acc)
          results ([], 0)"

text \<open>
  Assembling the singleton list (lines 62 to 70). \<open>draws n\<close> is what the call number
  \<open>n\<close> of \<open>random.random()\<close> returns; the third component counts the calls made.
\<close>

definition assemble :: "rat \<Rightarrow> (nat \<Rightarrow> rat) \<Rightarrow> table \<Rightarrow> string set \<times> string set \<times> nat" where
  "assemble ratio_unknown draws all_tokens =
     fold (\<lambda>(k, v) (singletons_all, singletons_sample, calls).
             if v = 1 \<and> \<not> search_digit k
             then (insert k singletons_all,
                   (if draws calls < ratio_unknown then insert k singletons_sample
                    else singletons_sample),
                   calls + 1)
             else (singletons_all, singletons_sample, calls))
          all_tokens ({}, {}, 0)"

text \<open>
  \<open>_write_file\<close>: the singleton set is the one that was dumped; each document of the
  list is read and its rewritten lines go to the file \<open>filename\<close> of the directory
  \<open>subdir\<close> under the output root.
\<close>

type_synonym written = "(string \<times> string) \<times> string list"

definition write_file ::
  "dirtree \<Rightarrow> document list \<Rightarrow> string set \<Rightarrow> bool \<Rightarrow> bool \<Rightarrow> error + written list" where
  "write_file fs file_path_list singletons lowercase replace_digits =
     traverse (\<lambda>(root_path, filename, subdir).
                 and_then (read_lines fs root_path filename)
                   (\<lambda>lines. Inr ((subdir, filename),
                                 write_lines lowercase replace_digits singletons lines)))
              file_path_list"

text \<open>
  Chunking the file list and processing the files (lines 79 to 84). The call of
  \<open>_write_file\<close> passes neither \<open>lowercase\<close> nor \<open>replace_digits\<close>, so both have
  their default there, \<open>True\<close>. The result is what was written, in the order of the
  chunks.
\<close>

definition rewrite :: "dirtree \<Rightarrow> document list \<Rightarrow> int \<Rightarrow> string set \<Rightarrow> error + written list" where
  "rewrite fs processing_list n_jobs singletons =
     and_then (chunk_list processing_list n_jobs)
       (\<lambda>file_path_chunks.
          and_then (Parallel n_jobs
                      (\<lambda>file_path_list. write_file fs file_path_list singletons True True)
                      file_path_chunks)
            (\<lambda>written. Inr (concat written)))"

record run =
  all_tokens :: table
  token_nb :: int
  singletons_all :: "string set"
  singletons_sample :: "string set"
  documents :: "written list"

text \<open>
  \<open>prep_w2v\<close>. The output directory is left out: a file written is named by its
  place under it.
\<close>

definition prep_w2v ::
  "re_lib \<Rightarrow> dirtree \<Rightarrow> path \<Rightarrow> int \<Rightarrow> rat \<Rightarrow> bool \<Rightarrow> bool \<Rightarrow> (nat \<Rightarrow> rat) \<Rightarrow> error + run" where
  "prep_w2v re_other fs input_dir n_jobs ratio_unknown lowercase replace_digits draws =
     and_then (collect re_other fs input_dir)
       (\<lambda>processing_list.
          and_then (Parallel n_jobs
                      (\<lambda>(root_path, filename, subdir).
                         gather_token_count fs root_path filename lowercase replace_digits)
                      processing_list)
            (\<lambda>results.
               let (tokens, nb) = combine results;
                   (s_all, s_sample, calls) = assemble ratio_unknown draws tokens
               in and_then (rewrite fs processing_list n_jobs s_sample)
                    (\<lambda>written.
                       Inr \<lparr>all_tokens = tokens, token_nb = nb,
                            singletons_all = s_all, singletons_sample = s_sample,
                            documents = written\<rparr>)))"

section \<open>Examples\<close>

text \<open>The result of a run that found no document.\<close>

definition nothing :: run where
  "nothing = \<lparr>all_tokens = [], token_nb = 0, singletons_all = {}, singletons_sample = {},
              documents = []\<rparr>"

text \<open>A file system whose directory \<open>in\<close> holds one document of one line.\<close>

definition corpus :: dirtree where
  "corpus = Dir [] [(''in'', Dir [(''a.txt'', Text [''Patient 2'' @ [newline]])] [])]"

text \<open>
  Two file systems whose one directory has a name with an open parenthesis: it holds a
  text file in the first, and a file that is not a text file in the second.
\<close>

definition run1_txt :: dirtree where
  "run1_txt = Dir [] [(''run(1'', Dir [(''a.txt'', Text [''Patient 2'' @ [newline]])] [])]"

definition run1_md :: dirtree where
  "run1_md = Dir [] [(''run(1'', Dir [(''notes.md'', Text [])] [])]"

text \<open>The two documents of the scenario of the specification, and their global table.\<close>

definition doc_a :: "string list" where
  "doc_a = [''Patient has 2 tumors'' @ [newline]]"

definition doc_b :: "string list" where
  "doc_b = [''tumor size 3 cm'' @ [newline]]"

definition global_table :: table where
  "global_table = [(''patient'', 1), (''has'', 1), (''0'', 2), (''tumors'', 1),
                   (''tumor'', 1), (''size'', 1), (''cm'', 1)]"

section \<open>The marker and the normalization\<close>

lemmas string_eval = newline_def space_def match_blank_def rstrip_nl_def count_token_def
  write_token_def lower_def lower_char_def sub_digits_def search_digit_def is_digit_def unk_def
  char_of_def bit_Suc_0_iff

lemma sub_digits_unk: "sub_digits s = unk \<longleftrightarrow> s = unk"
proof
  assume "sub_digits s = unk"
  then show "s = unk"
    by (auto simp: sub_digits_def unk_def is_digit_def map_eq_Cons_conv split: if_splits)
next
  assume "s = unk"
  then show "sub_digits s = unk"
    by (simp add: sub_digits_def unk_def is_digit_def)
qed

lemma write_token_empty:
  "write_token lowercase replace_digits {} tok = count_token lowercase replace_digits tok"
  by (simp add: count_token_def write_token_def Let_def)

text \<open>
  C9, amended. The marker is the literal \<open>#unk#\<close>, and nothing reserves it: a token
  is normalized to the marker exactly when the token itself, lowercased if lowercasing is
  on, is the marker. Folding the digits never makes the marker out of another string.
  The same holds of the token the rewriting phase writes when no singleton is sampled.
\<close>

theorem marker_only_from_marker:
  "(count_token lowercase replace_digits tok = unk
      \<longleftrightarrow> (if lowercase then lower tok else tok) = unk)
   \<and> (write_token lowercase replace_digits {} tok = unk
      \<longleftrightarrow> (if lowercase then lower tok else tok) = unk)"
  by (simp add: write_token_empty) (simp add: count_token_def sub_digits_unk)

text \<open>The token \<open>#Unk#\<close> becomes the marker when lowercasing is on, and not when it is off.\<close>

theorem marker_only_from_marker_witness:
  "count_token True True ''#Unk#'' = unk \<and> count_token False True ''#Unk#'' \<noteq> unk"
  using marker_only_from_marker[of True True "''#Unk#''"]
    marker_only_from_marker[of False True "''#Unk#''"]
  by (simp add: lower_def lower_char_def unk_def char_of_def bit_Suc_0_iff)

text \<open>
  C9 as stated fails: the input token \<open>#UNK#\<close> is normalized to the marker, in the
  counting phase and in the rewriting phase.
\<close>

theorem marker_not_reserved_counterexample:
  "count_token True True ''#UNK#'' = unk \<and> write_token True True {} ''#UNK#'' = unk"
  by (simp add: string_eval)

section \<open>Lines of spaces\<close>

lemma split_spaces: "split (replicate k space) = replicate (Suc k) []"
  by (induction k) simp_all

lemma rstrip_spaces:
  assumes "nl = [] \<or> nl = [newline]"
  shows "rstrip_nl (replicate k space @ nl) = replicate k space"
proof -
  have "dropWhile (\<lambda>c. c = newline) (replicate k space) = replicate k space"
    by (cases k) (simp_all add: newline_def space_def)
  then show ?thesis
    using assms by (auto simp: rstrip_nl_def)
qed

lemma count_token_Nil: "count_token lowercase replace_digits [] = []"
  by (simp add: count_token_def lower_def sub_digits_def)

lemma fold_incr_same:
  "fold (\<lambda>t d. incr d k 1) (replicate n x) [(k, c)] = [(k, c + int n)]"
  by (induction n arbitrary: c) simp_all

lemma spaces_not_blank:
  "1 \<le> k \<Longrightarrow> nl = [] \<or> nl = [newline] \<Longrightarrow> \<not> match_blank (replicate k space @ nl)"
  by (cases k) (auto simp: match_blank_def newline_def space_def)

lemma count_spaces:
  assumes "1 \<le> k" "nl = [] \<or> nl = [newline]"
  shows "count_lines lowercase replace_digits [replicate k space @ nl] = [([], int k + 1)]"
proof -
  have "fold (\<lambda>token_str d. incr d (count_token lowercase replace_digits token_str) 1)
             (replicate (Suc k) []) []
      = fold (\<lambda>token_str d. incr d [] 1) (replicate k ([]::string)) [([], 1)]"
    by (simp add: count_token_Nil)
  also have "\<dots> = [([], 1 + int k)]"
    by (rule fold_incr_same)
  finally show ?thesis
    using spaces_not_blank[OF assms] assms(2)
    by (simp add: count_lines_def rstrip_spaces split_spaces del: replicate_Suc)
qed

lemma write_spaces:
  assumes "1 \<le> k" "nl = [] \<or> nl = [newline]"
  shows "write_lines lowercase replace_digits S [replicate k space @ nl]
     = [join (replicate (Suc k) (if [] \<in> S then unk else [])) @ [newline]]"
  using spaces_not_blank[OF assms] assms(2)
  by (simp add: write_lines_def rstrip_spaces split_spaces write_token_def lower_def
      sub_digits_def del: replicate_Suc)

text \<open>
  C10. A line of \<open>k \<ge> 1\<close> spaces, with or without its newline, is not taken for a blank
  line; splitting it gives \<open>k + 1\<close> empty tokens; \<open>_gather_token_count\<close> counts the
  empty string \<open>k + 1\<close> times; \<open>_write_file\<close> writes a line for it, of \<open>k + 1\<close> empty
  tokens or markers joined by spaces. The empty string has no digit, so where it occurs
  once, as at the end of the line \<open>x\<close> followed by a space, it is a singleton and can be
  sampled.
\<close>

theorem spaces_line_counted:
  assumes "1 \<le> k" and "nl = [] \<or> nl = [newline]"
  shows "\<not> match_blank (replicate k space @ nl)
     \<and> split (rstrip_nl (replicate k space @ nl)) = replicate (k + 1) []
     \<and> count_lines lowercase replace_digits [replicate k space @ nl] = [([], int k + 1)]
     \<and> write_lines lowercase replace_digits singletons [replicate k space @ nl]
         = [join (replicate (k + 1) (if [] \<in> singletons then unk else [])) @ [newline]]
     \<and> \<not> search_digit []
     \<and> assemble 1 (\<lambda>n. 0) (count_lines lowercase replace_digits [''x '' @ nl])
         = ({[], ''x''}, {[], ''x''}, 2)"
proof -
  have x: "count_lines lowercase replace_digits [''x '' @ nl] = [(''x'', 1), ([], 1)]"
    using assms(2) by (auto simp: count_lines_def string_eval)
  have "assemble 1 (\<lambda>n. 0) [(''x'', 1), ([], 1)] = ({[], ''x''}, {[], ''x''}, 2)"
    by (simp add: assemble_def search_digit_def is_digit_def)
  with x have "assemble 1 (\<lambda>n. 0) (count_lines lowercase replace_digits [''x '' @ nl])
      = ({[], ''x''}, {[], ''x''}, 2)"
    by (simp only:)
  then show ?thesis
    using spaces_not_blank[OF assms] count_spaces[OF assms] write_spaces[OF assms] assms(2)
    by (simp add: rstrip_spaces split_spaces search_digit_def del: replicate_Suc)
qed

text \<open>One space and a newline: two empty tokens, counted, and written as one space or as two markers.\<close>

theorem spaces_line_counted_witness:
  "1 \<le> (1::nat) \<and> ([newline] = [] \<or> [newline] = [newline])
   \<and> \<not> match_blank ('' '' @ [newline])
   \<and> split (rstrip_nl ('' '' @ [newline])) = [[], []]
   \<and> count_lines True True ['' '' @ [newline]] = [([], 2)]
   \<and> write_lines True True {} ['' '' @ [newline]] = ['' '' @ [newline]]
   \<and> write_lines True True {[]} ['' '' @ [newline]] = [''#unk# #unk#'' @ [newline]]"
proof -
  have h1: "1 \<le> (1::nat)" by simp
  have h2: "[newline] = [] \<or> [newline] = [newline]" by simp
  show ?thesis
    using spaces_line_counted[OF h1 h2, of True True "{}"]
      spaces_line_counted[OF h1 h2, of True True "{[]}"]
    by (simp add: space_def unk_def)
qed

section \<open>The aggregation\<close>

lemma get_Nil: "get [] t = 0"
  by (simp add: get_def)

lemma get_Cons: "get ((k, c) # d) t = (if k = t then c else get d t)"
  by (simp add: get_def)

lemma get_incr: "get (incr d k v) t = (if t = k then get d k + v else get d t)"
  by (induction d) (auto simp: get_Nil get_Cons)

lemma keys_incr:
  "map fst (incr d k v) = (if k \<in> set (map fst d) then map fst d else map fst d @ [k])"
  by (induction d) (force split: if_splits)+

lemma distinct_incr: "distinct (map fst d) \<Longrightarrow> distinct (map fst (incr d k v))"
  by (simp add: keys_incr)

lemma sum_incr: "sum_list (map snd (incr d k v)) = sum_list (map snd d) + v"
  by (induction d) auto

text \<open>What one document adds to the entry of t.\<close>

lemma get_distinct: "distinct (map fst r) \<Longrightarrow> (\<Sum>(k, v)\<leftarrow>r. if k = t then v else 0) = get r t"
proof (induction r)
  case Nil
  then show ?case by (simp add: get_Nil)
next
  case (Cons p r)
  obtain k c where p: "p = (k, c)" by (cases p)
  have "k = t \<Longrightarrow> get r t = 0"
    using Cons.prems by (auto simp: p get_def map_of_eq_None_iff[THEN iffD2] image_iff split: option.splits) 
  with Cons show ?case by (auto simp: p get_Cons)
qed

lemma merge_result:
  "fold (\<lambda>(k, v) (all_tokens, token_nb). (incr all_tokens k v, token_nb + v)) r (a, n) = (a', n')
   \<Longrightarrow> get a' t = get a t + (\<Sum>(k, v)\<leftarrow>r. if k = t then v else 0)
     \<and> n' = n + sum_list (map snd r)
     \<and> sum_list (map snd a') = sum_list (map snd a) + sum_list (map snd r)
     \<and> (distinct (map fst a) \<longrightarrow> distinct (map fst a'))"
proof (induction r arbitrary: a n)
  case Nil
  then show ?case by simp
next
  case (Cons p r)
  obtain k v where p: "p = (k, v)" by (cases p)
  from Cons.prems have "fold (\<lambda>(k, v) (all_tokens, token_nb). (incr all_tokens k v, token_nb + v)) r (incr a k v, n + v) = (a', n')"
    by (simp add: p)
  from Cons.IH[OF this] show ?case
    by (auto simp: p get_incr sum_incr distinct_incr)
qed


lemma merge_results:
  "fold (\<lambda>result acc.
           fold (\<lambda>(k, v) (all_tokens, token_nb). (incr all_tokens k v, token_nb + v)) result acc)
        results (a, n) = (a', n')
   \<Longrightarrow> get a' t = get a t + (\<Sum>r\<leftarrow>results. \<Sum>(k, v)\<leftarrow>r. if k = t then v else 0)
     \<and> n' = n + (\<Sum>r\<leftarrow>results. sum_list (map snd r))
     \<and> sum_list (map snd a') = sum_list (map snd a) + (\<Sum>r\<leftarrow>results. sum_list (map snd r))
     \<and> (distinct (map fst a) \<longrightarrow> distinct (map fst a'))"
proof (induction results arbitrary: a n)
  case Nil
  then show ?case by simp
next
  case (Cons r results)
  obtain a1 n1 where r: "fold (\<lambda>(k, v) (all_tokens, token_nb). (incr all_tokens k v, token_nb + v)) r (a, n) = (a1, n1)"
    by (cases "fold (\<lambda>(k, v) (all_tokens, token_nb). (incr all_tokens k v, token_nb + v)) r (a, n)")
  with Cons.prems have rest: "fold (\<lambda>result acc.
           fold (\<lambda>(k, v) (all_tokens, token_nb). (incr all_tokens k v, token_nb + v)) result acc)
        results (a1, n1) = (a', n')"
    by simp
  from merge_result[OF r, of t] Cons.IH[OF rest] show ?case
    by simp
qed

text \<open>
  C3. For every list of tables of the counting phase (tables without repeated keys), the
  count of a token in the global table is the sum of its counts in the tables of the
  documents, and the number of tokens is the sum of the counts of the global table, which
  is the sum of all the counts of all the documents.
\<close>

theorem combine_lossless:
  assumes "\<forall>r\<in>set results. distinct (map fst r)"
  shows "get (fst (combine results)) t = (\<Sum>r\<leftarrow>results. get r t)
       \<and> snd (combine results) = sum_list (map snd (fst (combine results)))
       \<and> snd (combine results) = (\<Sum>r\<leftarrow>results. sum_list (map snd r))"
proof -
  obtain a' n' where c: "combine results = (a', n')"
    by (cases "combine results")
  have eq: "(\<Sum>r\<leftarrow>results. \<Sum>(k, v)\<leftarrow>r. if k = t then v else 0) = (\<Sum>r\<leftarrow>results. get r t)"
    using assms by (intro arg_cong[where f = sum_list] map_cong refl) (simp add: get_distinct)
  from merge_results[OF c[unfolded combine_def], of t] show ?thesis
    by (simp add: c eq get_Nil)
qed

lemma count_doc_a:
  "count_lines True True doc_a = [(''patient'', 1), (''has'', 1), (''0'', 1), (''tumors'', 1)]"
  by (simp add: doc_a_def count_lines_def string_eval)

lemma count_doc_b:
  "count_lines True True doc_b = [(''tumor'', 1), (''size'', 1), (''0'', 1), (''cm'', 1)]"
  by (simp add: doc_b_def count_lines_def string_eval)

lemma combine_scenario:
  "combine [count_lines True True doc_a, count_lines True True doc_b] = (global_table, 8)"
  by (simp add: count_doc_a count_doc_b combine_def global_table_def)

text \<open>The scenario of the specification: the two digits fold to \<open>0\<close>, counted twice; eight tokens.\<close>

theorem combine_lossless_witness:
  "distinct (map fst (count_lines True True doc_a))
   \<and> distinct (map fst (count_lines True True doc_b))
   \<and> get (fst (combine [count_lines True True doc_a, count_lines True True doc_b])) ''0'' = 2
   \<and> snd (combine [count_lines True True doc_a, count_lines True True doc_b]) = 8"
proof -
  have h: "\<forall>r \<in> set [count_lines True True doc_a, count_lines True True doc_b].
      distinct (map fst r)"
    by (simp add: count_doc_a count_doc_b)
  show ?thesis
    using h combine_lossless[OF h, of "''0''"]
    by (simp add: count_doc_a count_doc_b get_def)
qed

lemma combine_distinct: "distinct (map fst (fst (combine results)))"
proof -
  obtain a n where c: "combine results = (a, n)" by (cases "combine results")
  from merge_results[OF c[unfolded combine_def], of "[]"] show ?thesis
    by (simp add: c)
qed

section \<open>The singletons\<close>

lemma assemble_fold:
  "fold (\<lambda>(k, v) (singletons_all, singletons_sample, calls).
             if v = 1 \<and> \<not> search_digit k
             then (insert k singletons_all,
                   (if draws calls < ratio_unknown then insert k singletons_sample
                    else singletons_sample),
                   calls + 1)
             else (singletons_all, singletons_sample, calls)) tbl (A, S, c) = (A', S', c')
   \<Longrightarrow> A' = A \<union> {k. (k, 1) \<in> set tbl \<and> \<not> search_digit k}
     \<and> S \<subseteq> S' \<and> S' \<subseteq> S \<union> {k. (k, 1) \<in> set tbl \<and> \<not> search_digit k}
     \<and> ((\<forall>n. \<not> draws n < ratio_unknown) \<longrightarrow> S' = S)
     \<and> ((\<forall>n. draws n < ratio_unknown) \<longrightarrow> S' = S \<union> {k. (k, 1) \<in> set tbl \<and> \<not> search_digit k})"
proof (induction tbl arbitrary: A S c)
  case Nil
  then show ?case by simp
next
  case (Cons p tbl)
  obtain k v where p: "p = (k, v)" by (cases p)
  show ?case
  proof (cases "v = 1 \<and> \<not> search_digit k")
    case True
    with Cons.prems have "fold (\<lambda>(k, v) (singletons_all, singletons_sample, calls).
             if v = 1 \<and> \<not> search_digit k
             then (insert k singletons_all,
                   (if draws calls < ratio_unknown then insert k singletons_sample
                    else singletons_sample),
                   calls + 1)
             else (singletons_all, singletons_sample, calls)) tbl
         (insert k A, (if draws c < ratio_unknown then insert k S else S), c + 1) = (A', S', c')"
      by (simp add: p)
    from Cons.IH[OF this] True show ?thesis
      by (auto simp: p split: if_splits)
  next
    case False
    with Cons.prems have "fold (\<lambda>(k, v) (singletons_all, singletons_sample, calls).
             if v = 1 \<and> \<not> search_digit k
             then (insert k singletons_all,
                   (if draws calls < ratio_unknown then insert k singletons_sample
                    else singletons_sample),
                   calls + 1)
             else (singletons_all, singletons_sample, calls)) tbl (A, S, c) = (A', S', c')"
      by (auto simp: p)
    from Cons.IH[OF this] False show ?thesis
      by (auto simp: p)
  qed
qed

lemma assemble_sets:
  assumes "assemble ratio_unknown draws tbl = (A, S, c)"
  shows "A = {k. (k, 1) \<in> set tbl \<and> \<not> search_digit k}" and "S \<subseteq> A"
    and "(\<forall>n. \<not> draws n < ratio_unknown) \<Longrightarrow> S = {}"
    and "(\<forall>n. draws n < ratio_unknown) \<Longrightarrow> S = A"
  using assemble_fold[OF assms[unfolded assemble_def]] by auto

lemma get_item: "distinct (map fst d) \<Longrightarrow> (k, v) \<in> set d \<Longrightarrow> get d k = v"
  by (simp add: get_def)

text \<open>
  C4. For every global table (without repeated keys), every ratio and every sequence of
  draws, a token of the sampled singletons is among all the singletons, and a token
  among all the singletons has the count 1 and no digit.
\<close>

theorem singletons_subsets:
  assumes "distinct (map fst tbl)"
    and "assemble ratio_unknown draws tbl = (A, S, c)"
  shows "(t \<in> S \<longrightarrow> t \<in> A) \<and> (t \<in> A \<longrightarrow> get tbl t = 1 \<and> \<not> search_digit t)"
  using assemble_sets(1,2)[OF assms(2)] get_item[OF assms(1)] by auto

lemma assemble_scenario:
  "assemble (1 / 2) (\<lambda>n. if even n then 0 else 3 / 4) global_table
     = ({''cm'', ''size'', ''tumor'', ''tumors'', ''has'', ''patient''},
        {''size'', ''tumors'', ''patient''}, 6)"
  by (simp add: assemble_def global_table_def search_digit_def is_digit_def)

text \<open>The table of the scenario, with draws that sample every other singleton.\<close>

theorem singletons_subsets_witness:
  "distinct (map fst global_table)
   \<and> assemble (1 / 2) (\<lambda>n. if even n then 0 else 3 / 4) global_table
       = ({''cm'', ''size'', ''tumor'', ''tumors'', ''has'', ''patient''},
          {''size'', ''tumors'', ''patient''}, 6)
   \<and> ''size'' \<in> {''size'', ''tumors'', ''patient''}
   \<and> ''size'' \<in> {''cm'', ''size'', ''tumor'', ''tumors'', ''has'', ''patient''}
   \<and> get global_table ''size'' = 1 \<and> \<not> search_digit ''size''"
proof -
  have h: "distinct (map fst global_table)"
    by (simp add: global_table_def)
  have m: "''size'' \<in> {''size'', ''tumors'', ''patient''}" by simp
  show ?thesis
    using h m assemble_scenario singletons_subsets[OF h assemble_scenario, of "''size''"]
    by blast
qed

text \<open>
  C5. For every table and every sequence of draws from the interval from 0 to 1, 1
  excluded: with the ratio 0 no singleton is sampled, and with the ratio 1 the sampled
  singletons are all the singletons.
\<close>

theorem sample_extremes:
  assumes "\<forall>n. 0 \<le> draws n \<and> draws n < 1"
  shows "fst (snd (assemble 0 draws tbl)) = {}
       \<and> fst (snd (assemble 1 draws tbl)) = fst (assemble 1 draws tbl)"
proof -
  obtain A0 S0 c0 where a0: "assemble 0 draws tbl = (A0, S0, c0)"
    by (cases "assemble 0 draws tbl")
  obtain A1 S1 c1 where a1: "assemble 1 draws tbl = (A1, S1, c1)"
    by (cases "assemble 1 draws tbl")
  have "S0 = {}"
    using assemble_sets(3)[OF a0] assms by (simp add: not_less)
  moreover have "S1 = A1"
    using assemble_sets(4)[OF a1] assms by simp
  ultimately show ?thesis by (simp add: a0 a1)
qed

text \<open>The table of the scenario, every draw being one half.\<close>

theorem sample_extremes_witness:
  "(\<forall>n. 0 \<le> (\<lambda>n. 1 / 2 :: rat) n \<and> (\<lambda>n. 1 / 2 :: rat) n < 1)
   \<and> fst (snd (assemble 0 (\<lambda>n. 1 / 2) global_table)) = {}
   \<and> fst (snd (assemble 1 (\<lambda>n. 1 / 2) global_table))
       = {''cm'', ''size'', ''tumor'', ''tumors'', ''has'', ''patient''}"
proof -
  have h: "\<forall>n. 0 \<le> (\<lambda>n. 1 / 2 :: rat) n \<and> (\<lambda>n. 1 / 2 :: rat) n < 1"
    by simp
  have "fst (assemble 1 (\<lambda>n. 1 / 2) global_table)
      = {''cm'', ''size'', ''tumor'', ''tumors'', ''has'', ''patient''}"
    using assemble_sets(1)[of 1 "\<lambda>n. 1 / 2" global_table]
    by (cases "assemble 1 (\<lambda>n. 1 / 2) global_table")
       (auto simp: global_table_def search_digit_def is_digit_def)
  then show ?thesis
    using h sample_extremes[OF h, of global_table] by simp
qed

section \<open>Rounding\<close>

lemma py_round_cases:
  "py_round x = \<lfloor>x\<rfloor> \<and> x - of_int \<lfloor>x\<rfloor> \<le> 1 / 2
   \<or> py_round x = \<lfloor>x\<rfloor> + 1 \<and> 1 / 2 \<le> x - of_int \<lfloor>x\<rfloor>"
  by (auto simp: py_round_def Let_def)

lemma py_round_near: "\<bar>of_int (py_round x) - x\<bar> \<le> 1 / 2"
proof -
  have "of_int \<lfloor>x\<rfloor> \<le> x" "x < of_int \<lfloor>x\<rfloor> + 1"
    by linarith+
  with py_round_cases[of x] show ?thesis
    by (auto simp: abs_le_iff)
qed

lemma py_round_of_int: "py_round (of_int k) = k"
  by (simp add: py_round_def)

lemma py_round_mono:
  assumes "x \<le> y"
  shows "py_round x \<le> py_round y"
proof (cases "\<lfloor>x\<rfloor> = \<lfloor>y\<rfloor>")
  case True
  with assms show ?thesis
    by (auto simp: py_round_def Let_def)
next
  case False
  with assms have "\<lfloor>x\<rfloor> + 1 \<le> \<lfloor>y\<rfloor>"
    using floor_mono[OF assms] by linarith
  moreover have "py_round x \<le> \<lfloor>x\<rfloor> + 1" "\<lfloor>y\<rfloor> \<le> py_round y"
    using py_round_cases[of x] py_round_cases[of y] by auto
  ultimately show ?thesis by linarith
qed

lemma floorlog_rat:
  assumes "0 < n"
  shows "(2::rat) ^ (floorlog 2 n - 1) \<le> of_nat n" and "of_nat n < (2::rat) ^ floorlog 2 n"
    and "0 < floorlog 2 n"
proof -
  from floorlog_bounds[OF assms, of 2]
  have b: "2 ^ (floorlog 2 n - 1) \<le> n" "n < 2 ^ floorlog 2 n" by simp_all
  from b(1) have "of_nat (2 ^ (floorlog 2 n - 1)) \<le> (of_nat n :: rat)"
    by (simp only: of_nat_le_iff)
  then show "(2::rat) ^ (floorlog 2 n - 1) \<le> of_nat n" by simp
  from b(2) have "(of_nat n :: rat) < of_nat (2 ^ floorlog 2 n)"
    by (simp only: of_nat_less_iff)
  then show "of_nat n < (2::rat) ^ floorlog 2 n" by simp
  show "0 < floorlog 2 n"
    using assms by (simp add: floorlog_def)
qed

lemma expo_ge1:
  assumes "1 \<le> x"
  shows "2 powi (expo x) \<le> x" and "x < 2 powi (expo x + 1)"
proof -
  let ?n = "nat \<lfloor>x\<rfloor>"
  let ?g = "floorlog 2 ?n"
  have pos: "0 < ?n" using assms by simp
  have e: "expo x = int ?g - 1" using assms by (simp add: expo_def)
  have g: "0 < ?g" by (rule floorlog_rat(3)[OF pos])
  have n: "of_nat ?n \<le> x" "x < of_nat ?n + 1"
  proof -
    have "of_nat ?n = (of_int \<lfloor>x\<rfloor> :: rat)" using assms by simp
    then show "of_nat ?n \<le> x" "x < of_nat ?n + 1" by linarith+
  qed
  have "2 powi (expo x) = (2::rat) ^ (?g - 1)"
    using g by (simp add: e power_int_def nat_diff_distrib')
  also have "\<dots> \<le> of_nat ?n" by (rule floorlog_rat(1)[OF pos])
  finally show "2 powi (expo x) \<le> x" using n(1) by linarith
  have "?n < 2 ^ ?g" using floorlog_bounds[OF pos, of 2] by simp
  then have "?n + 1 \<le> 2 ^ ?g" by linarith
  then have "of_nat (?n + 1) \<le> (of_nat (2 ^ ?g) :: rat)" by (simp only: of_nat_le_iff)
  then have "of_nat ?n + 1 \<le> (2::rat) ^ ?g" by simp
  moreover have "2 powi (expo x + 1) = (2::rat) ^ ?g"
    by (simp add: e)
  ultimately show "x < 2 powi (expo x + 1)" using n(2) by linarith
qed

lemma expo_lt1:
  assumes "0 < x" "x < 1"
  shows "2 powi (expo x) \<le> x" and "x < 2 powi (expo x + 1)"
proof -
  let ?c = "\<lceil>1 / x\<rceil>"
  let ?n = "nat (?c - 1)"
  let ?g = "floorlog 2 ?n"
  have inv: "1 < 1 / x" using assms by simp
  then have c2: "2 \<le> ?c" by linarith
  then have pos: "0 < ?n" by simp
  have e: "expo x = - int ?g" using assms by (simp add: expo_def)
  have g: "0 < ?g" by (rule floorlog_rat(3)[OF pos])
  have n: "of_nat ?n < 1 / x" "1 / x \<le> of_nat ?n + 1"
  proof -
    have "0 \<le> ?c - 1" using c2 by linarith
    then have "of_nat ?n = (of_int (?c - 1) :: rat)" by (rule of_nat_nat)
    then have "of_nat ?n = (of_int ?c :: rat) - 1" by simp
    then show "of_nat ?n < 1 / x" "1 / x \<le> of_nat ?n + 1" by linarith+
  qed
  have p: "(0::rat) < 2 ^ ?g" "(0::rat) < 2 ^ (?g - 1)" by simp_all
  have "?n < 2 ^ ?g" using floorlog_bounds[OF pos, of 2] by simp
  then have "?n + 1 \<le> 2 ^ ?g" by linarith
  then have "of_nat (?n + 1) \<le> (of_nat (2 ^ ?g) :: rat)" by (simp only: of_nat_le_iff)
  then have "of_nat ?n + 1 \<le> (2::rat) ^ ?g" by simp
  then have "1 / x \<le> (2::rat) ^ ?g" using n(2) by linarith
  then have "1 / 2 ^ ?g \<le> x"
    using assms(1) p(1) by (simp add: field_simps)
  then show "2 powi (expo x) \<le> x"
    by (simp add: e power_int_minus_divide)
  have "(2::rat) ^ (?g - 1) < 1 / x"
    using floorlog_rat(1)[OF pos] n(1) by linarith
  then have "x < 1 / 2 ^ (?g - 1)"
    using assms(1) p(2) by (simp add: field_simps)
  moreover have "2 powi (expo x + 1) = 1 / (2::rat) ^ (?g - 1)"
  proof -
    have "expo x + 1 = - int (?g - 1)" using g by (simp add: e)
    then show ?thesis by (simp only: power_int_minus_divide power_int_of_nat)
  qed
  ultimately show "x < 2 powi (expo x + 1)" by simp
qed

lemma expo_bounds:
  assumes "0 < x"
  shows "2 powi (expo x) \<le> x" and "x < 2 powi (expo x + 1)"
  using expo_ge1[of x] expo_lt1[of x] assms by (cases "1 \<le> x"; simp)+

lemma pow2_less_iff: "(2::rat) powi a < 2 powi b \<longleftrightarrow> a < b"
proof
  assume l: "(2::rat) powi a < 2 powi b"
  show "a < b"
  proof (rule ccontr)
    assume "\<not> a < b"
    then have "(2::rat) powi b \<le> 2 powi a"
      by (intro power_int_increasing) simp_all
    with l show False by simp
  qed
next
  assume "a < b"
  then show "(2::rat) powi a < 2 powi b"
    by (intro power_int_strict_increasing) simp_all
qed

lemma pow2_le_iff: "(2::rat) powi a \<le> 2 powi b \<longleftrightarrow> a \<le> b"
  using pow2_less_iff[of b a] by (simp add: not_less[symmetric])

lemma expo_unique:
  assumes "2 powi e \<le> x" "x < 2 powi (e + 1)"
  shows "expo x = e"
proof -
  have x: "0 < x" using assms(1) zero_less_power_int[of "2::rat" e] by linarith
  have "(2::rat) powi e < 2 powi (expo x + 1)"
    using assms(1) expo_bounds(2)[OF x] by linarith
  then have "e < expo x + 1" by (simp add: pow2_less_iff)
  moreover have "(2::rat) powi expo x < 2 powi (e + 1)"
    using assms(2) expo_bounds(1)[OF x] by linarith
  then have "expo x < e + 1" by (simp add: pow2_less_iff)
  ultimately show ?thesis by linarith
qed


lemma fl_zero: "fl 0 = 0"
  by (simp add: fl_def)

lemma fl_pos:
  "0 < x \<Longrightarrow> fl x = of_int (py_round (x / 2 powi (expo x - 52))) * 2 powi (expo x - 52)"
  by (simp add: fl_def)

text \<open>The significand of a positive number lies between \<open>2 ^ 52\<close> and \<open>2 ^ 53\<close>.\<close>

lemma significand_bounds:
  assumes "0 < x"
  shows "2 ^ 52 \<le> x / 2 powi (expo x - 52)" and "x / 2 powi (expo x - 52) < 2 ^ 53"
proof -
  have u: "(0::rat) < 2 powi (expo x - 52)" by simp
  have "(2::rat) ^ 52 * 2 powi (expo x - 52) = 2 powi (52 + (expo x - 52))"
    by (subst power_int_add) simp_all
  then have a: "(2::rat) ^ 52 * 2 powi (expo x - 52) = 2 powi expo x" by simp
  have "(2::rat) ^ 53 * 2 powi (expo x - 52) = 2 powi (53 + (expo x - 52))"
    by (subst power_int_add) simp_all
  then have b: "(2::rat) ^ 53 * 2 powi (expo x - 52) = 2 powi (expo x + 1)"
    by (simp add: add.commute)
  show "2 ^ 52 \<le> x / 2 powi (expo x - 52)"
    using expo_bounds(1)[OF assms] u a by (simp add: pos_le_divide_eq)
  show "x / 2 powi (expo x - 52) < 2 ^ 53"
    using expo_bounds(2)[OF assms] u b by (simp add: pos_divide_less_eq)
qed

lemma round_significand:
  assumes "0 < x"
  shows "2 ^ 52 \<le> py_round (x / 2 powi (expo x - 52))"
    and "py_round (x / 2 powi (expo x - 52)) \<le> 2 ^ 53"
proof -
  have "py_round (of_int (2 ^ 52)) \<le> py_round (x / 2 powi (expo x - 52))"
    using significand_bounds(1)[OF assms] by (intro py_round_mono) simp
  then show "2 ^ 52 \<le> py_round (x / 2 powi (expo x - 52))"
    by (simp only: py_round_of_int)
  have "py_round (x / 2 powi (expo x - 52)) \<le> py_round (of_int (2 ^ 53))"
    using significand_bounds(2)[OF assms] by (intro py_round_mono) simp
  then show "py_round (x / 2 powi (expo x - 52)) \<le> 2 ^ 53"
    by (simp only: py_round_of_int)
qed

lemma fl_between:
  assumes "0 < x"
  shows "2 powi expo x \<le> fl x" and "fl x \<le> 2 powi (expo x + 1)"
proof -
  let ?u = "(2::rat) powi (expo x - 52)"
  let ?M = "py_round (x / ?u)"
  have u: "0 < ?u" by simp
  have "(2::rat) ^ 52 * ?u = 2 powi (52 + (expo x - 52))"
    by (subst power_int_add) simp_all
  then have a: "(2::rat) ^ 52 * ?u = 2 powi expo x" by simp
  have "(2::rat) ^ 53 * ?u = 2 powi (53 + (expo x - 52))"
    by (subst power_int_add) simp_all
  then have b: "(2::rat) ^ 53 * ?u = 2 powi (expo x + 1)"
    by (simp add: add.commute)
  have "(of_int (2 ^ 52) :: rat) \<le> of_int ?M"
    using round_significand(1)[OF assms] by (simp only: of_int_le_iff)
  then have "(2::rat) ^ 52 * ?u \<le> of_int ?M * ?u"
    using u by (intro mult_right_mono) simp_all
  then show "2 powi expo x \<le> fl x"
    by (simp only: fl_pos[OF assms] a[symmetric])
  have "(of_int ?M :: rat) \<le> of_int (2 ^ 53)"
    using round_significand(2)[OF assms] by (simp only: of_int_le_iff)
  then have "of_int ?M * ?u \<le> (2::rat) ^ 53 * ?u"
    using u by (intro mult_right_mono) simp_all
  then show "fl x \<le> 2 powi (expo x + 1)"
    by (simp only: fl_pos[OF assms] b[symmetric])
qed

lemma fl_positive: "0 < x \<Longrightarrow> 0 < fl x"
  using fl_between(1)[of x] zero_less_power_int[of "2::rat" "expo x"] by linarith

text \<open>The rounding error is at most half a unit in the last place.\<close>

lemma fl_error:
  assumes "0 < x"
  shows "\<bar>fl x - x\<bar> \<le> x / 2 ^ 53"
proof -
  let ?u = "(2::rat) powi (expo x - 52)"
  let ?M = "py_round (x / ?u)"
  have u: "0 < ?u" by simp
  have "(2::rat) ^ 52 * ?u = 2 powi (52 + (expo x - 52))"
    by (subst power_int_add) simp_all
  then have "(2::rat) ^ 52 * ?u \<le> x"
    using expo_bounds(1)[OF assms] by simp
  then have ux: "?u \<le> x / 2 ^ 52"
    by (simp add: pos_le_divide_eq mult.commute)
  have "fl x - x = (of_int ?M - x / ?u) * ?u"
    using u by (simp add: fl_pos[OF assms] left_diff_distrib)
  then have "\<bar>fl x - x\<bar> = \<bar>of_int ?M - x / ?u\<bar> * ?u"
    using u by (simp add: abs_mult)
  also have "\<dots> \<le> 1 / 2 * ?u"
    using u py_round_near[of "x / ?u"] by (intro mult_right_mono) simp_all
  also have "\<dots> \<le> 1 / 2 * (x / 2 ^ 52)"
    using ux by simp
  finally show ?thesis by simp
qed

lemma expo_mono:
  assumes "0 < x" "x \<le> y"
  shows "expo x \<le> expo y"
proof -
  have y: "0 < y" using assms by linarith
  have "(2::rat) powi expo x < 2 powi (expo y + 1)"
    using expo_bounds(1)[OF assms(1)] expo_bounds(2)[OF y] assms(2) by linarith
  then show ?thesis by (simp add: pow2_less_iff)
qed

lemma fl_mono_pos:
  assumes "0 < x" "x \<le> y"
  shows "fl x \<le> fl y"
proof (cases "expo x = expo y")
  case True
  have y: "0 < y" using assms by linarith
  have "x / 2 powi (expo y - 52) \<le> y / 2 powi (expo y - 52)"
    using assms(2) by (simp add: divide_right_mono)
  then have "py_round (x / 2 powi (expo y - 52)) \<le> py_round (y / 2 powi (expo y - 52))"
    by (rule py_round_mono)
  then have "(of_int (py_round (x / 2 powi (expo y - 52))) :: rat)
      \<le> of_int (py_round (y / 2 powi (expo y - 52)))"
    by (simp only: of_int_le_iff)
  then show ?thesis
    by (simp add: fl_pos[OF assms(1)] fl_pos[OF y] True mult_right_mono)
next
  case False
  have y: "0 < y" using assms by linarith
  from False expo_mono[OF assms] have "expo x + 1 \<le> expo y" by linarith
  then have "(2::rat) powi (expo x + 1) \<le> 2 powi expo y"
    by (simp add: pow2_le_iff)
  with fl_between(2)[OF assms(1)] fl_between(1)[OF y] show ?thesis by linarith
qed

lemma fl_mono:
  assumes "0 \<le> x" "x \<le> y"
  shows "fl x \<le> fl y"
proof (cases "x = 0")
  case True
  show ?thesis
  proof (cases "y = 0")
    case True
    with \<open>x = 0\<close> show ?thesis by simp
  next
    case False
    with assms True have "0 < y" by linarith
    from fl_positive[OF this] True show ?thesis by (simp add: fl_zero)
  qed
next
  case False
  with assms have "0 < x" by linarith
  then show ?thesis using assms(2) by (rule fl_mono_pos)
qed


text \<open>A number with a significand of at most 53 bits is its own rounding.\<close>

lemma fl_exact:
  assumes "0 < m" "m < 2 ^ 53"
  shows "fl (of_int m * 2 powi k) = of_int m * 2 powi k"
proof -
  let ?x = "of_int m * (2::rat) powi k"
  let ?u = "(2::rat) powi (expo ?x - 52)"
  have x: "0 < ?x" using assms(1) by simp
  have "(of_int m :: rat) < of_int (2 ^ 53)"
    using assms(2) by (simp only: of_int_less_iff)
  then have "?x < 2 ^ 53 * 2 powi k"
    by (intro mult_strict_right_mono) simp_all
  also have "(2::rat) ^ 53 * 2 powi k = 2 powi (53 + k)"
    by (subst power_int_add) simp_all
  finally have "(2::rat) powi expo ?x < 2 powi (53 + k)"
    using expo_bounds(1)[OF x] by linarith
  then have "expo ?x < 53 + k" by (simp only: pow2_less_iff)
  then have d: "0 \<le> k - (expo ?x - 52)" by linarith
  have "?x / ?u = of_int m * (2 powi k / ?u)" by simp
  also have "2 powi k / ?u = (2::rat) powi (k - (expo ?x - 52))"
    by (subst power_int_diff) simp_all
  also have "\<dots> = 2 ^ nat (k - (expo ?x - 52))"
    using d by (rule power_int_nonneg_exp)
  also have "of_int m * (2::rat) ^ nat (k - (expo ?x - 52))
      = of_int (m * 2 ^ nat (k - (expo ?x - 52)))"
    by simp
  finally have q: "?x / ?u = of_int (m * 2 ^ nat (k - (expo ?x - 52)))" .
  have "fl ?x = of_int (py_round (?x / ?u)) * ?u" by (rule fl_pos[OF x])
  also have "\<dots> = (?x / ?u) * ?u" by (simp only: q py_round_of_int)
  also have "\<dots> = ?x" by simp
  finally show ?thesis .
qed

lemma fl_of_int:
  assumes "0 \<le> i" "i < 2 ^ 53"
  shows "fl (of_int i) = of_int i"
proof (cases "i = 0")
  case True
  then show ?thesis by (simp add: fl_zero)
next
  case False
  with assms have "0 < i" by linarith
  from fl_exact[OF this assms(2), of 0] show ?thesis by simp
qed

lemma fl_representable:
  assumes "0 < x"
  shows "\<exists>m k. 0 < m \<and> m < 2 ^ 53 \<and> fl x = of_int m * 2 powi k"
proof -
  let ?u = "(2::rat) powi (expo x - 52)"
  let ?M = "py_round (x / ?u)"
  have M: "2 ^ 52 \<le> ?M" "?M \<le> 2 ^ 53" by (rule round_significand[OF assms])+
  show ?thesis
  proof (cases "?M = 2 ^ 53")
    case True
    have "(2::rat) ^ 52 * 2 powi ((expo x - 52) + 1) = 2 ^ 52 * (2 powi (expo x - 52) * 2)"
      by (subst power_int_add) simp_all
    then have "fl x = of_int (2 ^ 52) * 2 powi ((expo x - 52) + 1)"
      by (simp add: fl_pos[OF assms] True)
    moreover have "(0::int) < 2 ^ 52" "(2::int) ^ 52 < 2 ^ 53" by simp_all
    ultimately show ?thesis by blast
  next
    case False
    with M have "0 < ?M" "?M < 2 ^ 53" by simp_all
    moreover have "fl x = of_int ?M * ?u" by (rule fl_pos[OF assms])
    ultimately show ?thesis by blast
  qed
qed

lemma fl_idem: "0 \<le> x \<Longrightarrow> fl (fl x) = fl x"
proof (cases "x = 0")
  case True
  then show ?thesis by (simp add: fl_zero)
next
  case False
  assume "0 \<le> x"
  with False have "0 < x" by linarith
  from fl_representable[OF this] obtain m k
    where "0 < m" "m < 2 ^ 53" "fl x = of_int m * 2 powi k" by blast
  then show ?thesis using fl_exact[of m k] by simp
qed

text \<open>Multiplying by a power of two commutes with rounding.\<close>

lemma fl_scale:
  assumes "0 \<le> x"
  shows "fl (x * 2 powi k) = fl x * 2 powi k"
proof (cases "x = 0")
  case True
  then show ?thesis by (simp add: fl_zero)
next
  case False
  with assms have x: "0 < x" by linarith
  then have xk: "0 < x * 2 powi k" by simp
  have p: "(0::rat) < 2 powi k" by simp
  have "2 powi (expo x + k) = (2::rat) powi expo x * 2 powi k"
    by (subst power_int_add) simp_all
  then have l: "2 powi (expo x + k) \<le> x * 2 powi k"
    using expo_bounds(1)[OF x] p by (simp add: mult_right_mono)
  have "2 powi (expo x + k + 1) = (2::rat) powi (expo x + 1) * 2 powi k"
    by (simp add: power_int_add)
  then have u: "x * 2 powi k < 2 powi (expo x + k + 1)"
    using expo_bounds(2)[OF x] p by (simp add: mult_strict_right_mono)
  have e: "expo (x * 2 powi k) = expo x + k"
    using l u by (rule expo_unique)
  have s: "(2::rat) powi (expo x + k - 52) = 2 powi (expo x - 52) * 2 powi k"
  proof -
    have "expo x + k - 52 = (expo x - 52) + k" by simp
    then show ?thesis by (simp only: power_int_add[of "2::rat", simplified])
  qed
  have "x * 2 powi k / (2 powi (expo x - 52) * 2 powi k) = x / 2 powi (expo x - 52)"
    by simp
  then show ?thesis
    by (simp add: fl_pos[OF xk] fl_pos[OF x] e s)
qed

text \<open>The rounding of a natural number is a natural number.\<close>

lemma fl_of_nat:
  "\<exists>F. fl (of_nat L) = of_nat F"
proof (cases "L = 0")
  case True
  then have "fl (of_nat L) = of_nat 0" by (simp add: fl_zero)
  then show ?thesis by blast
next
  case False
  let ?x = "of_nat L :: rat"
  have x: "0 < ?x" using False by simp
  show ?thesis
  proof (cases "52 \<le> expo ?x")
    case True
    let ?M = "py_round (?x / 2 powi (expo ?x - 52))"
    have M: "0 \<le> ?M" using round_significand(1)[OF x] by simp
    have "(2::rat) powi (expo ?x - 52) = 2 ^ nat (expo ?x - 52)"
      using True by (intro power_int_nonneg_exp) simp
    then have "fl ?x = of_int (?M * 2 ^ nat (expo ?x - 52))"
      by (simp add: fl_pos[OF x])
    also have "\<dots> = of_nat (nat (?M * 2 ^ nat (expo ?x - 52)))"
      using M by simp
    finally show ?thesis by blast
  next
    case False
    then have "expo ?x + 1 \<le> 52" by linarith
    then have "(2::rat) powi (expo ?x + 1) \<le> 2 powi 52"
      by (simp only: pow2_le_iff)
    with expo_bounds(2)[OF x] have "?x < 2 ^ 52" by simp
    then have "(of_int (int L) :: rat) < of_int (2 ^ 52)" by simp
    then have "int L < 2 ^ 52" by (simp only: of_int_less_iff)
    then have "int L < 2 ^ 53" by simp
    from fl_of_int[OF _ this] have "fl ?x = of_nat L" by simp
    then show ?thesis by blast
  qed
qed

lemma floor_rat_numeral: "\<lfloor>numeral a / numeral b :: rat\<rfloor> = numeral a div numeral b"
  using floor_divide_of_int_eq[of "numeral a" "numeral b", where ?'a = rat] by simp

lemma fl_eval:
  assumes "2 powi e \<le> x" "x < 2 powi (e + 1)"
  shows "fl x = of_int (py_round (x / 2 powi (e - 52))) * 2 powi (e - 52)"
proof -
  have "0 < x" using assms(1) zero_less_power_int[of "2::rat" e] by linarith
  then show ?thesis
    by (simp only: fl_pos expo_unique[OF assms])
qed

lemma fl_above_53: "fl 9007199254740993 = 9007199254740992"
proof -
  have "fl 9007199254740993
      = of_int (py_round (9007199254740993 / 2 powi (53 - 52))) * 2 powi (53 - 52)"
    by (rule fl_eval) simp_all
  also have "py_round (9007199254740993 / 2 powi (53 - 52)) = 4503599627370496"
    by (simp add: py_round_def Let_def floor_rat_numeral)
  finally show ?thesis by simp
qed

lemma py_round_quotient:
  assumes "0 < b"
  shows "py_round (of_int a / of_int b) =
     (if 2 * (a mod b) < b then a div b else if b < 2 * (a mod b) then a div b + 1
      else if even (a div b) then a div b else a div b + 1)"
proof -
  have fl: "\<lfloor>of_int a / of_int b :: rat\<rfloor> = a div b" by (rule floor_divide_of_int_eq)
  have "a = b * (a div b) + a mod b" by simp
  then have "(of_int a :: rat) = of_int b * of_int (a div b) + of_int (a mod b)"
    by (metis of_int_add of_int_mult)
  then have "(of_int a :: rat) / of_int b - of_int (a div b) = of_int (a mod b) / of_int b"
    using assms by (simp add: field_simps)
  then have r: "(of_int a :: rat) / of_int b - of_int (a div b)
      = of_int (a mod b) / of_int b" .
  have lt: "of_int (a mod b) / (of_int b :: rat) < 1 / 2 \<longleftrightarrow> 2 * (a mod b) < b"
  proof -
    have "of_int (a mod b) / (of_int b :: rat) < 1 / 2
        \<longleftrightarrow> (of_int (2 * (a mod b)) :: rat) < of_int b"
      using assms by (simp add: field_simps)
    then show ?thesis by (simp only: of_int_less_iff)
  qed
  have gt: "1 / 2 < of_int (a mod b) / (of_int b :: rat) \<longleftrightarrow> b < 2 * (a mod b)"
  proof -
    have "1 / 2 < of_int (a mod b) / (of_int b :: rat)
        \<longleftrightarrow> (of_int b :: rat) < of_int (2 * (a mod b))"
      using assms by (simp add: field_simps)
    then show ?thesis by (simp only: of_int_less_iff)
  qed
  show ?thesis
    by (simp only: py_round_def Let_def fl r lt gt)
qed

lemma py_round_numeral: "py_round (numeral k) = numeral k"
  using py_round_of_int[of "numeral k"] by simp

section \<open>The chunks\<close>

lemma clamp_nonneg: "0 \<le> i \<Longrightarrow> clamp n i = nat (min i n)"
  by (simp add: clamp_def)

lemma slice_nat:
  "take (min B (length xs) - min A (length xs)) (drop (min A (length xs)) xs)
     = drop A (take B xs)"
proof (cases "A \<le> length xs")
  case True
  have "take (min B (length xs) - A) (drop A xs) = take (B - A) (drop A xs)"
  proof (cases "B \<le> length xs")
    case True
    then show ?thesis by (simp add: min_def)
  next
    case False
    then have "length (drop A xs) \<le> min B (length xs) - A" "length (drop A xs) \<le> B - A"
      by simp_all
    then show ?thesis by (simp only: take_all)
  qed
  with True show ?thesis by (simp add: min_def drop_take)
next
  case False
  then show ?thesis by (simp add: min_def)
qed

lemma slice_nonneg:
  assumes "0 \<le> a" "0 \<le> b"
  shows "slice xs a b = drop (nat a) (take (nat b) xs)"
proof -
  have "nat (min a (int (length xs))) = min (nat a) (length xs)"
       "nat (min b (int (length xs))) = min (nat b) (length xs)"
    using assms by (simp_all add: min_def) linarith+
  then show ?thesis
    using assms by (simp add: slice_def clamp_nonneg slice_nat)
qed

lemma drop_take_append:
  assumes "a \<le> b" "b \<le> c"
  shows "drop a (take b xs) @ drop b (take c xs) = drop a (take c xs)"
proof -
  have "take c xs = take b (take c xs) @ drop b (take c xs)"
    by (simp only: append_take_drop_id)
  also have "take b (take c xs) = take b xs"
    using assms(2) by (simp add: min_def)
  finally have "drop a (take c xs) = drop a (take b xs @ drop b (take c xs))"
    by simp
  also have "\<dots> = drop a (take b xs) @ drop (a - length (take b xs)) (drop b (take c xs))"
    by simp
  also have "drop (a - length (take b xs)) (drop b (take c xs)) = drop b (take c xs)"
  proof (cases "b \<le> length xs")
    case True
    then show ?thesis using assms(1) by simp
  next
    case False
    then show ?thesis using assms(2) by simp
  qed
  finally show ?thesis by simp
qed

lemma segments_mono:
  assumes "\<And>i. i < n \<Longrightarrow> b i \<le> b (Suc i)" "i \<le> j" "j \<le> n"
  shows "(b i :: nat) \<le> b j"
  using assms(2,3)
proof (induction j)
  case 0
  then show ?case by simp
next
  case (Suc j)
  show ?case
  proof (cases "i = Suc j")
    case True
    then show ?thesis by simp
  next
    case False
    with Suc.prems have "i \<le> j" "j < n" by simp_all
    with Suc.IH assms(1)[of j] show ?thesis by simp
  qed
qed

lemma concat_segments:
  assumes "\<And>i. i < n \<Longrightarrow> b i \<le> b (Suc i)"
  shows "concat (map (\<lambda>i. drop (b i) (take (b (Suc i)) xs)) [0..<n]) = drop (b 0) (take (b n) xs)"
  using assms
proof (induction n)
  case 0
  then show ?case by simp
next
  case (Suc n)
  have mono: "b 0 \<le> b n"
    using segments_mono[of "Suc n" b 0 n] Suc.prems by simp
  have "concat (map (\<lambda>i. drop (b i) (take (b (Suc i)) xs)) [0..<Suc n])
      = drop (b 0) (take (b n) xs) @ drop (b n) (take (b (Suc n)) xs)"
    using Suc by simp
  also have "\<dots> = drop (b 0) (take (b (Suc n)) xs)"
    using mono Suc.prems[of n] by (intro drop_take_append) simp_all
  finally show ?case .
qed


lemma fl_nonneg: "0 \<le> x \<Longrightarrow> 0 \<le> fl x"
  using fl_mono[of 0 x] by (simp add: fl_zero)

lemma truediv_nonneg: "0 \<le> a \<Longrightarrow> 0 < b \<Longrightarrow> 0 \<le> truediv a b"
  by (simp add: truediv_def fl_nonneg)

lemma mul_int_mono:
  assumes "0 \<le> d" "0 \<le> i" "i \<le> j"
  shows "mul_int d i \<le> mul_int d j"
proof -
  have "fl (of_int i) \<le> fl (of_int j)" "0 \<le> fl (of_int i)"
    using assms(2,3) by (simp_all add: fl_mono fl_nonneg)
  then have "d * fl (of_int i) \<le> d * fl (of_int j)" "0 \<le> d * fl (of_int i)"
    using assms(1) by (simp_all add: mult_left_mono)
  then show ?thesis
    unfolding mul_int_def by (intro fl_mono)
qed

lemma mul_int_0: "mul_int d 0 = 0"
  by (simp add: mul_int_def fl_zero)

lemma py_round_0: "py_round 0 = 0"
  using py_round_of_int[of 0] by simp

lemma boundary_0: "boundary len n 0 = 0"
  by (simp add: boundary_def mul_int_0 py_round_0)

lemma boundary_mono:
  assumes "0 < n" "0 \<le> i" "i \<le> j"
  shows "boundary len n i \<le> boundary len n j"
  unfolding boundary_def
  using assms by (intro py_round_mono mul_int_mono truediv_nonneg) simp_all

lemma boundary_nonneg: "0 < n \<Longrightarrow> 0 \<le> i \<Longrightarrow> 0 \<le> boundary len n i"
  using boundary_mono[of n 0 i len] by (simp add: boundary_0)

lemma chunk_list_boundary:
  "n \<noteq> 0 \<Longrightarrow>
   chunk_list xs n =
     Inr (map (\<lambda>i. slice xs (boundary (length xs) n (int i)) (boundary (length xs) n (int (Suc i))))
              [0..<nat n])"
  by (simp add: chunk_list_def range_def boundary_def comp_def add.commute)

lemma chunk_list_segments:
  assumes "0 < n"
  shows "chunk_list xs n =
     Inr (map (\<lambda>i. drop (nat (boundary (length xs) n (int i)))
                     (take (nat (boundary (length xs) n (int (Suc i)))) xs))
              [0..<nat n])"
proof -
  have "slice xs (boundary (length xs) n (int i)) (boundary (length xs) n (int (Suc i)))
      = drop (nat (boundary (length xs) n (int i)))
             (take (nat (boundary (length xs) n (int (Suc i)))) xs)" for i
    using assms by (intro slice_nonneg boundary_nonneg) simp_all
  then show ?thesis
    using assms by (simp add: chunk_list_boundary)
qed

lemma chunk_list_concat:
  assumes "0 < n" "chunk_list xs n = Inr cs"
  shows "concat cs = take (nat (boundary (length xs) n n)) xs" and "length cs = nat n"
proof -
  let ?b = "\<lambda>i. nat (boundary (length xs) n (int i))"
  have cs: "cs = map (\<lambda>i. drop (?b i) (take (?b (Suc i)) xs)) [0..<nat n]"
    using assms(2) by (simp add: chunk_list_segments[OF assms(1)])
  have "?b i \<le> ?b (Suc i)" for i
    using assms(1) by (intro nat_mono boundary_mono) simp_all
  then have "concat (map (\<lambda>i. drop (?b i) (take (?b (Suc i)) xs)) [0..<nat n])
      = drop (?b 0) (take (?b (nat n)) xs)"
    by (intro concat_segments)
  then show "concat cs = take (nat (boundary (length xs) n n)) xs"
    using assms(1) by (simp add: cs boundary_0)
  show "length cs = nat n" by (simp add: cs)
qed

text \<open>The last boundary for one part and for four parts: the length of the list, rounded.\<close>

lemma fl_1: "fl 1 = 1"
  using fl_of_int[of 1] by simp

lemma fl_4: "fl 4 = 4"
  using fl_of_int[of 4] by simp

lemma boundary_last_1:
  assumes "fl (of_nat len) = of_nat F"
  shows "boundary len 1 1 = int F"
proof -
  have "fl (fl (of_nat len)) = fl (of_nat len)" by (intro fl_idem) simp
  then have "mul_int (truediv (int len) 1) 1 = of_int (int F)"
    using assms by (simp add: mul_int_def truediv_def fl_1)
  then show ?thesis
    unfolding boundary_def by (simp only: py_round_of_int)
qed

lemma boundary_last_4:
  assumes "fl (of_nat len) = of_nat F"
  shows "boundary len 4 4 = int F"
proof -
  have "fl (of_nat len * 2 powi (- 2)) = fl (of_nat len) * 2 powi (- 2)"
    by (intro fl_scale) simp
  then have d: "truediv (int len) 4 = of_nat F / 4"
    using assms by (simp add: truediv_def power_int_minus_divide)
  have "fl (fl (of_nat len)) = fl (of_nat len)" by (intro fl_idem) simp
  then have "mul_int (truediv (int len) 4) 4 = of_int (int F)"
    using assms by (simp add: mul_int_def d fl_4)
  then show ?thesis
    unfolding boundary_def by (simp only: py_round_of_int)
qed

lemma boundary_dvd:
  assumes "0 < n" "0 \<le> i" "0 \<le> q" "int len = q * n" "q < 2 ^ 53" "i < 2 ^ 53" "q * i < 2 ^ 53"
  shows "boundary len n i = q * i"
proof -
  have "(of_int (int len) :: rat) / of_int n = of_int q"
    using assms(1) by (simp add: assms(4))
  then have d: "truediv (int len) n = of_int q"
    using assms(3,5) by (simp only: truediv_def fl_of_int)
  have "mul_int (of_int q) i = fl (of_int q * of_int i)"
    using assms(2,6) by (simp only: mul_int_def fl_of_int)
  also have "\<dots> = fl (of_int (q * i))" by simp
  also have "\<dots> = of_int (q * i)"
    using assms(2,3,7) by (intro fl_of_int) simp_all
  finally show ?thesis
    by (simp only: boundary_def d py_round_of_int)
qed

lemma boundary_near:
  assumes "0 < n" "0 \<le> i" "i \<le> n" "int len * n \<le> 2 ^ 50"
  shows "2 * \<bar>n * boundary len n i - int len * i\<bar> \<le> n"
proof (cases "len = 0 \<or> i = 0")
  case True
  then have "boundary len n i = 0"
  proof
    assume "len = 0"
    then show ?thesis
      by (simp add: boundary_def truediv_def mul_int_def fl_zero py_round_0)
  next
    assume "i = 0"
    then show ?thesis by (simp add: boundary_0)
  qed
  with True assms(1) show ?thesis by auto
next
  case False
  define L :: rat where "L = of_int (int len)"
  define N :: rat where "N = of_int n"
  define I :: rat where "I = of_int i"
  define d where "d = fl (L / N)"
  define p where "p = d * I"
  define xt where "xt = fl p"
  define x where "x = L / N * I"
  define b where "b = boundary len n i"
  have pos: "0 < L" "0 < N" "0 < I"
    using False assms(1,2) by (simp_all add: L_def N_def I_def)
  have "1 * n \<le> int len * n"
    using False assms(1) by (intro mult_right_mono) simp_all
  with assms(3,4) have "i \<le> 2 ^ 50" by simp
  then have i53: "i < 2 ^ 53" by simp
  have fI: "fl I = I"
    unfolding I_def using assms(2) i53 by (rule fl_of_int)
  have x0: "0 < x" using pos by (simp add: x_def)
  have q0: "0 < L / N" using pos by simp
  have "\<bar>d - L / N\<bar> \<le> L / N / 2 ^ 53"
    unfolding d_def by (rule fl_error[OF q0])
  then have "I * \<bar>d - L / N\<bar> \<le> I * (L / N / 2 ^ 53)"
    using pos(3) by (intro mult_left_mono) simp_all
  moreover have "\<bar>p - x\<bar> = I * \<bar>d - L / N\<bar>"
  proof -
    have "p - x = I * (d - L / N)" by (simp add: p_def x_def algebra_simps)
    then show ?thesis using pos(3) by (simp add: abs_mult)
  qed
  moreover have "I * (L / N / 2 ^ 53) = x / 2 ^ 53" by (simp add: x_def)
  ultimately have e1: "\<bar>p - x\<bar> \<le> x / 2 ^ 53" by simp
  have d0: "0 < d" unfolding d_def by (rule fl_positive[OF q0])
  then have p0: "0 < p" using pos(3) by (simp add: p_def)
  have e2: "\<bar>xt - p\<bar> \<le> p / 2 ^ 53"
    unfolding xt_def by (rule fl_error[OF p0])
  define c where "c = x / 2 ^ 53"
  have c: "0 \<le> c" "c \<le> x" using x0 by (simp_all add: c_def)
  have e1': "\<bar>p - x\<bar> \<le> c" using e1 by (simp only: c_def)
  then have "p \<le> 2 * x" using c by linarith
  then have "p / 2 ^ 53 \<le> 2 * x / 2 ^ 53" by (intro divide_right_mono) simp_all
  then have e2': "\<bar>xt - p\<bar> \<le> 2 * c" using e2 by (simp add: c_def)
  have "\<bar>xt - x\<bar> \<le> 3 * c" using e1' e2' by linarith
  then have e3: "\<bar>xt - x\<bar> \<le> 3 * x / 2 ^ 53" by (simp add: c_def)
  have bdef: "b = py_round xt"
    by (simp add: b_def boundary_def mul_int_def truediv_def xt_def p_def d_def L_def N_def I_def fI[unfolded I_def])
  have e4: "\<bar>of_int b - xt\<bar> \<le> 1 / 2"
    unfolding bdef by (rule py_round_near)
  have e5: "\<bar>of_int b - x\<bar> \<le> 1 / 2 + 3 * x / 2 ^ 53"
    using e3 e4 by linarith
  have Nx: "N * x = L * I" using pos(2) by (simp add: x_def)
  have "of_int (int len * i) \<le> (of_int (int len * n) :: rat)"
    using assms(3) by (simp only: of_int_le_iff) (simp add: mult_left_mono)
  also have "\<dots> \<le> of_int (2 ^ 50)"
    using assms(4) by (simp only: of_int_le_iff)
  finally have LI: "L * I \<le> 2 ^ 50" by (simp add: L_def I_def)
  have "N * \<bar>of_int b - x\<bar> \<le> N * (1 / 2 + 3 * x / 2 ^ 53)"
    using e5 pos(2) by (intro mult_left_mono) simp_all
  also have "\<dots> = N / 2 + 3 * (N * x) / 2 ^ 53" by (simp add: algebra_simps)
  also have "\<dots> \<le> N / 2 + 3 / 8"
    using LI by (simp add: Nx mult.commute)
  finally have "N * \<bar>of_int b - x\<bar> \<le> N / 2 + 3 / 8" .
  moreover have "N * \<bar>of_int b - x\<bar> = \<bar>N * of_int b - L * I\<bar>"
  proof -
    have "N * (of_int b - x) = N * of_int b - L * I" by (simp add: algebra_simps Nx)
    then have "\<bar>N * of_int b - L * I\<bar> = \<bar>N * (of_int b - x)\<bar>" by simp
    also have "\<dots> = \<bar>N\<bar> * \<bar>of_int b - x\<bar>" by (rule abs_mult)
    finally show ?thesis using pos(2) by simp
  qed
  ultimately have le: "\<bar>N * of_int b - L * I\<bar> \<le> N / 2 + 3 / 8" by (simp only:)
  define a where "a = \<bar>N * of_int b - L * I\<bar>"
  from le have "a \<le> N / 2 + 3 / 8" by (simp only: a_def)
  then have "2 * a < N + 1" by linarith
  then have "2 * \<bar>N * of_int b - L * I\<bar> < N + 1" by (simp only: a_def)
  then have "(of_int (2 * \<bar>n * b - int len * i\<bar>) :: rat) < of_int (n + 1)"
    by (simp add: N_def L_def I_def)
  then have "2 * \<bar>n * b - int len * i\<bar> < n + 1"
    by (simp only: of_int_less_iff)
  then show ?thesis by (simp add: b_def)
qed


lemma boundary_len0: "boundary 0 n i = 0"
  by (simp add: boundary_def truediv_def mul_int_def fl_zero py_round_0)

lemma boundary_last:
  assumes "0 < n" "int len * n \<le> 2 ^ 50"
  shows "boundary len n n = int len"
proof -
  have "2 * \<bar>n * boundary len n n - int len * n\<bar> \<le> n"
    using assms by (intro boundary_near) simp_all
  moreover have "n * boundary len n n - int len * n = n * (boundary len n n - int len)"
    by (simp add: algebra_simps)
  ultimately have "2 * (\<bar>n\<bar> * \<bar>boundary len n n - int len\<bar>) \<le> n"
    by (simp only: abs_mult)
  then have le: "n * (2 * \<bar>boundary len n n - int len\<bar>) \<le> n * 1"
    using assms(1) by (simp add: algebra_simps)
  have "2 * \<bar>boundary len n n - int len\<bar> \<le> 1"
    using le assms(1) by (simp only: mult_le_cancel_left_pos)
  then show ?thesis by arith
qed

lemma mult_between:
  assumes "0 < (n::int)" "- n < n * k" "n * k < 2 * n"
  shows "0 \<le> k \<and> k \<le> 1"
proof -
  have "n * (- 1) < n * k" using assms(2) by simp
  then have "- 1 < k" using assms(1) by (simp only: mult_less_cancel_left_pos)
  moreover have "n * k < n * 2" using assms(3) by simp
  then have "k < 2" using assms(1) by (simp only: mult_less_cancel_left_pos)
  ultimately show ?thesis by linarith
qed

lemma chunk_size:
  assumes "0 < n" "int len * n \<le> 2 ^ 50" "0 \<le> i" "i < n"
  shows "int len div n \<le> boundary len n (i + 1) - boundary len n i"
    and "boundary len n (i + 1) - boundary len n i \<le> int len div n + 1"
proof -
  define q where "q = int len div n"
  define s where "s = boundary len n (i + 1) - boundary len n i"
  have "q \<le> s \<and> s \<le> q + 1"
  proof (cases "len = 0")
    case True
    then show ?thesis by (simp add: q_def s_def boundary_len0)
  next
    case False
    have "1 * n \<le> int len * n"
      using False assms(1) by (intro mult_right_mono) simp_all
    with assms(2) have n50: "n \<le> 2 ^ 50" by simp
    have "int len * 1 \<le> int len * n"
      using assms(1) by (intro mult_left_mono) simp_all
    with assms(2) have l50: "int len \<le> 2 ^ 50" by simp
    show ?thesis
    proof (cases "int len mod n = 0")
      case True
      then have len: "int len = q * n"
        using div_mult_mod_eq[of "int len" n] by (simp add: q_def)
      have q0: "0 \<le> q" using assms(1) by (simp add: q_def pos_imp_zdiv_nonneg_iff)
      have "q * 1 \<le> q * n" using q0 assms(1) by (intro mult_left_mono) simp_all
      with len l50 have q53: "q < 2 ^ 53" by simp
      have "q * (i + 1) \<le> q * n" using q0 assms(4) by (intro mult_left_mono) simp_all
      with len l50 have a: "q * (i + 1) < 2 ^ 53" by simp
      have "q * i \<le> q * n" using q0 assms(4) by (intro mult_left_mono) simp_all
      with len l50 have b: "q * i < 2 ^ 53" by simp
      have i53: "i < 2 ^ 53" "i + 1 < 2 ^ 53" using assms(4) n50 by simp_all
      have "boundary len n (i + 1) = q * (i + 1)"
        using assms(1,3) q0 len q53 i53(2) a by (intro boundary_dvd) simp_all
      moreover have "boundary len n i = q * i"
        using assms(1,3) q0 len q53 i53(1) b by (intro boundary_dvd) simp_all
      ultimately show ?thesis by (simp add: s_def algebra_simps)
    next
      case False
      define r where "r = int len mod n"
      have "0 \<le> r" "r < n"
        using assms(1) by (simp_all add: r_def)
      with False have r: "0 < r" "r < n" by (simp_all add: r_def)
      have len: "int len = n * q + r"
        using mult_div_mod_eq[of n "int len"] by (simp add: q_def r_def)
      define A where "A = n * boundary len n (i + 1) - int len * (i + 1)"
      define B where "B = n * boundary len n i - int len * i"
      have A: "2 * \<bar>A\<bar> \<le> n"
        unfolding A_def using assms by (intro boundary_near) simp_all
      have B: "2 * \<bar>B\<bar> \<le> n"
        unfolding B_def using assms by (intro boundary_near) simp_all
      have "n * (s - q) = A - B + (int len - n * q)"
        by (simp add: A_def B_def s_def algebra_simps)
      then have "n * (s - q) = A - B + r" by (simp add: len)
      with A B r have "- n < n * (s - q)" "n * (s - q) < 2 * n" by linarith+
      from mult_between[OF assms(1) this] show ?thesis by linarith
    qed
  qed
  then show "int len div n \<le> boundary len n (i + 1) - boundary len n i"
    and "boundary len n (i + 1) - boundary len n i \<le> int len div n + 1"
    by (simp_all add: q_def s_def)
qed

lemma chunk_length:
  assumes "0 < n" "int (length xs) * n \<le> 2 ^ 50" "i < nat n"
  shows "int (length xs) div n
           \<le> int (length (slice xs (boundary (length xs) n (int i)) (boundary (length xs) n (int i + 1))))"
    and "int (length (slice xs (boundary (length xs) n (int i)) (boundary (length xs) n (int i + 1))))
           \<le> int (length xs) div n + 1"
proof -
  let ?a = "boundary (length xs) n (int i)"
  let ?b = "boundary (length xs) n (int i + 1)"
  have i: "0 \<le> int i" "int i < n" using assms(3) by simp_all
  have a0: "0 \<le> ?a" using assms(1) by (intro boundary_nonneg) simp_all
  have ab: "?a \<le> ?b" using assms(1) by (intro boundary_mono) simp_all
  have "?b \<le> boundary (length xs) n n"
    using assms(1) i by (intro boundary_mono) simp_all
  then have bl: "?b \<le> int (length xs)"
    by (simp only: boundary_last[OF assms(1,2)])
  have "length (slice xs ?a ?b) = length (drop (nat ?a) (take (nat ?b) xs))"
    using a0 ab by (subst slice_nonneg) simp_all
  also have "\<dots> = nat ?b - nat ?a"
  proof -
    have "nat ?b \<le> length xs" using bl by linarith
    then show ?thesis by (simp add: min_def)
  qed
  finally have "int (length (slice xs ?a ?b)) = ?b - ?a"
    using a0 ab by simp
  with chunk_size[OF assms(1,2) i]
  show "int (length xs) div n \<le> int (length (slice xs ?a ?b))"
    and "int (length (slice xs ?a ?b)) \<le> int (length xs) div n + 1"
    by simp_all
qed

text \<open>
  C2, amended. For every list and every number of parts \<open>n \<ge> 1\<close> such that the length
  of the list times \<open>n\<close> is at most \<open>2 ^ 50\<close>, \<open>_chunk_list\<close> returns \<open>n\<close> chunks,
  chunk \<open>i\<close> being the slice between the positions \<open>round(division * i)\<close> and
  \<open>round(division * (i + 1))\<close>; the chunks concatenated in their order are the list; and
  the lengths of two chunks differ by one at most.
\<close>

theorem chunk_list_partition:
  assumes "1 \<le> n" and "int (length xs) * n \<le> 2 ^ 50"
  shows "\<exists>cs. chunk_list xs n = Inr cs \<and> length cs = nat n
     \<and> (\<forall>i < nat n. cs ! i = slice xs (boundary (length xs) n (int i))
                                        (boundary (length xs) n (int i + 1)))
     \<and> concat cs = xs
     \<and> (\<forall>c \<in> set cs. \<forall>c' \<in> set cs. length c \<le> length c' + 1)"
proof -
  have n: "0 < n" "n \<noteq> 0" using assms(1) by simp_all
  define cs where "cs = map (\<lambda>i. slice xs (boundary (length xs) n (int i))
                                        (boundary (length xs) n (int i + 1))) [0..<nat n]"
  have cl: "chunk_list xs n = Inr cs"
    by (simp add: chunk_list_boundary[OF n(2)] cs_def add.commute)
  have len: "length cs = nat n" by (simp add: cs_def)
  have nth: "\<forall>i < nat n. cs ! i = slice xs (boundary (length xs) n (int i))
                                        (boundary (length xs) n (int i + 1))"
    by (simp add: cs_def)
  have "concat cs = take (nat (boundary (length xs) n n)) xs"
    by (rule chunk_list_concat(1)[OF n(1) cl])
  then have cat: "concat cs = xs"
    by (simp add: boundary_last[OF n(1) assms(2)])
  have size: "int (length xs) div n \<le> int (length c) \<and> int (length c) \<le> int (length xs) div n + 1"
    if "c \<in> set cs" for c
  proof -
    from that obtain i where "i < nat n"
      "c = slice xs (boundary (length xs) n (int i)) (boundary (length xs) n (int i + 1))"
      by (auto simp: cs_def)
    with chunk_length[OF n(1) assms(2), of i] show ?thesis by simp
  qed
  have "\<forall>c \<in> set cs. \<forall>c' \<in> set cs. length c \<le> length c' + 1"
  proof (intro ballI)
    fix c c' assume "c \<in> set cs" "c' \<in> set cs"
    with size[of c] size[of c'] show "length c \<le> length c' + 1" by linarith
  qed
  with cl len nth cat show ?thesis by blast
qed

text \<open>
  Seven elements in three parts: the division gives a double just above 7 / 3, three
  times which is rounded to 7.
\<close>

lemma d73: "truediv 7 3 = 5254199565265579 / 2251799813685248"
proof -
  have "fl (7 / 3) = of_int (py_round (7 / 3 / 2 powi (1 - 52))) * 2 powi (1 - 52)"
    by (rule fl_eval) simp_all
  also have "7 / 3 / 2 powi (1 - 52) = (of_int 15762598695796736 / of_int 3 :: rat)"
    by simp
  also have "py_round (of_int 15762598695796736 / of_int 3) = 5254199565265579"
    by (subst py_round_quotient) simp_all
  finally show ?thesis by (simp add: truediv_def)
qed

lemma m73_1: "mul_int (5254199565265579 / 2251799813685248) 1 = 5254199565265579 / 2251799813685248"
proof -
  have "fl (5254199565265579 / 2251799813685248)
     = of_int (py_round (5254199565265579 / 2251799813685248 / 2 powi (1 - 52))) * 2 powi (1 - 52)"
    by (rule fl_eval) simp_all
  also have "5254199565265579 / 2251799813685248 / 2 powi (1 - 52) = (of_int 5254199565265579 :: rat)"
    by simp
  finally have "fl (5254199565265579 / 2251799813685248) = 5254199565265579 / 2251799813685248"
    by (simp add: py_round_numeral)
  then show ?thesis by (simp add: mul_int_def fl_1)
qed


lemma m73_2: "mul_int (5254199565265579 / 2251799813685248) 2 = 5254199565265579 / 1125899906842624"
proof -
  have "fl (5254199565265579 / 1125899906842624)
     = of_int (py_round (5254199565265579 / 1125899906842624 / 2 powi (2 - 52))) * 2 powi (2 - 52)"
    by (rule fl_eval) simp_all
  also have "5254199565265579 / 1125899906842624 / 2 powi (2 - 52) = (5254199565265579 :: rat)"
    by simp
  finally have "fl (5254199565265579 / 1125899906842624) = 5254199565265579 / 1125899906842624"
    by (simp add: py_round_numeral)
  moreover have "fl (of_int 2) = of_int 2" by (rule fl_of_int) simp_all
  ultimately show ?thesis by (simp add: mul_int_def)
qed

lemma m73_3: "mul_int (5254199565265579 / 2251799813685248) 3 = 7"
proof -
  have "fl (15762598695796737 / 2251799813685248)
     = of_int (py_round (15762598695796737 / 2251799813685248 / 2 powi (2 - 52))) * 2 powi (2 - 52)"
    by (rule fl_eval) simp_all
  also have "15762598695796737 / 2251799813685248 / 2 powi (2 - 52)
      = (of_int 15762598695796737 / of_int 2 :: rat)"
    by simp
  also have "py_round (of_int 15762598695796737 / of_int 2) = 7881299347898368"
    by (subst py_round_quotient) simp_all
  finally have "fl (15762598695796737 / 2251799813685248) = 7"
    by simp
  moreover have "fl (of_int 3) = of_int 3" by (rule fl_of_int) simp_all
  ultimately show ?thesis by (simp add: mul_int_def)
qed

lemma boundaries_7_3:
  "boundary 7 3 0 = 0" "boundary 7 3 1 = 2" "boundary 7 3 2 = 5" "boundary 7 3 3 = 7"
proof -
  show "boundary 7 3 0 = 0" by (rule boundary_0)
  have "py_round (of_int 5254199565265579 / of_int 2251799813685248) = 2"
    by (subst py_round_quotient) simp_all
  then show "boundary 7 3 1 = 2"
    by (simp add: boundary_def d73 m73_1)
  have "py_round (of_int 5254199565265579 / of_int 1125899906842624) = 5"
    by (subst py_round_quotient) simp_all
  then show "boundary 7 3 2 = 5"
    by (simp add: boundary_def d73 m73_2)
  show "boundary 7 3 3 = 7"
    by (simp add: boundary_def d73 m73_3 py_round_numeral)
qed

lemma chunk_list_7_3:
  "chunk_list [1, 2, 3, 4, 5, 6, 7 :: nat] 3 = Inr [[1, 2], [3, 4, 5], [6, 7]]"
proof -
  define xs where "xs = [1, 2, 3, 4, 5, 6, 7 :: nat]"
  have len: "length xs = 7" by (simp add: xs_def)
  have up: "[0..<3] = [0, 1, 2 :: nat]" by (simp add: upt_rec)
  have "chunk_list xs 3 =
      Inr (map (\<lambda>i. slice xs (boundary (length xs) 3 (int i))
                              (boundary (length xs) 3 (int (Suc i)))) [0..<nat 3])"
    by (rule chunk_list_boundary) simp
  then have "chunk_list xs 3 = Inr [slice xs 0 2, slice xs 2 5, slice xs 5 7]"
    by (simp add: len up boundaries_7_3)
  moreover have "slice xs 0 2 = [1, 2]" "slice xs 2 5 = [3, 4, 5]" "slice xs 5 7 = [6, 7]"
    by (simp_all add: slice_def clamp_def xs_def)
  ultimately show ?thesis by (simp add: xs_def)
qed

text \<open>Seven elements in three parts.\<close>

theorem chunk_list_partition_witness:
  "1 \<le> (3::int) \<and> int (length [1, 2, 3, 4, 5, 6, 7 :: nat]) * 3 \<le> 2 ^ 50
   \<and> chunk_list [1, 2, 3, 4, 5, 6, 7 :: nat] 3 = Inr [[1, 2], [3, 4, 5], [6, 7]]
   \<and> concat [[1, 2], [3, 4, 5], [6, 7 :: nat]] = [1, 2, 3, 4, 5, 6, 7]
   \<and> length [3, 4, 5 :: nat] \<le> length [1, 2 :: nat] + 1"
proof -
  have h1: "1 \<le> (3::int)" by simp
  have h2: "int (length [1, 2, 3, 4, 5, 6, 7 :: nat]) * 3 \<le> 2 ^ 50" by simp
  from chunk_list_partition[OF h1 h2] obtain cs
    where cs: "chunk_list [1, 2, 3, 4, 5, 6, 7 :: nat] 3 = Inr cs"
      and cat: "concat cs = [1, 2, 3, 4, 5, 6, 7]"
      and size: "\<forall>c \<in> set cs. \<forall>c' \<in> set cs. length c \<le> length c' + 1"
    by blast
  have "Inr cs = (Inr [[1, 2], [3, 4, 5], [6, 7]] :: error + nat list list)"
    using cs chunk_list_7_3 by (rule trans[OF sym])
  then have eq: "cs = [[1, 2], [3, 4, 5], [6, 7]]" by blast
  have "[3, 4, 5] \<in> set cs" "[1, 2] \<in> set cs" by (simp_all add: eq)
  with size have "length [3, 4, 5 :: nat] \<le> length [1, 2 :: nat] + 1" by blast
  with h1 h2 chunk_list_7_3 cat show ?thesis by (simp only: eq simp_thms)
qed

text \<open>
  C2 as stated fails beyond the precision of a double: the length \<open>2 ^ 53 + 1\<close> is
  rounded to \<open>2 ^ 53\<close> by the division, and the one chunk asked for lacks the last
  element of the list.
\<close>

theorem chunk_list_huge_counterexample:
  "chunk_list (replicate (2 ^ 53 + 1) (0::nat)) 1 = Inr [replicate (2 ^ 53) 0]
   \<and> concat [replicate (2 ^ 53) (0::nat)] \<noteq> replicate (2 ^ 53 + 1) 0"
proof -
  define xs where "xs = replicate (2 ^ 53 + 1) (0::nat)"
  have len: "length xs = 2 ^ 53 + 1" by (simp only: xs_def length_replicate)
  have "(of_nat (2 ^ 53 + 1) :: rat) = 9007199254740993" by simp
  then have "fl (of_nat (length xs)) = 9007199254740992"
    by (simp only: len fl_above_53)
  also have "(9007199254740992 :: rat) = of_nat (2 ^ 53)" by simp
  finally have "boundary (length xs) 1 1 = int (2 ^ 53)"
    by (rule boundary_last_1)
  then have b: "nat (boundary (length xs) 1 (int (Suc 0))) = 2 ^ 53"
    by simp
  have "chunk_list xs 1 = Inr [drop (nat (boundary (length xs) 1 (int 0)))
                                  (take (nat (boundary (length xs) 1 (int (Suc 0)))) xs)]"
    by (subst chunk_list_segments) simp_all
  then have "chunk_list xs 1 = Inr [take (2 ^ 53) xs]"
    by (simp only: b) (simp add: boundary_0)
  moreover have "min (2 ^ 53 :: nat) (2 ^ 53 + 1) = 2 ^ 53" by simp
  then have "take (2 ^ 53) xs = replicate (2 ^ 53) 0"
    by (simp only: xs_def take_replicate)
  moreover have "length (replicate (2 ^ 53) (0::nat)) \<noteq> length xs"
    by (simp only: len length_replicate) 
  then have "replicate (2 ^ 53) (0::nat) \<noteq> xs" by blast
  then have "concat [replicate (2 ^ 53) (0::nat)] \<noteq> xs"
    by (simp only: concat.simps append_Nil2 simp_thms)
  ultimately show ?thesis by (simp only: xs_def simp_thms)
qed

section \<open>The rewriting phase\<close>

lemma and_then_Inr: "and_then (Inr x) f = f x"
  by (simp add: and_then_def)

lemma and_then_Inl: "and_then (Inl e) f = Inl e"
  by (simp add: and_then_def)

lemma traverse_append:
  "traverse f (xs @ ys) =
     and_then (traverse f xs) (\<lambda>a. and_then (traverse f ys) (\<lambda>b. Inr (a @ b)))"
proof (induction xs)
  case Nil
  show ?case by (cases "traverse f ys") (simp_all add: and_then_Inr and_then_Inl)
next
  case (Cons x xs)
  show ?case
  proof (cases "f x")
    case (Inl e)
    then show ?thesis by (simp add: and_then_Inl)
  next
    case (Inr y)
    show ?thesis
      by (cases "traverse f xs"; cases "traverse f ys")
         (simp_all add: Inr Cons and_then_Inr and_then_Inl)
  qed
qed

lemma traverse_concat:
  "and_then (traverse (traverse f) css) (\<lambda>w. Inr (concat w)) = traverse f (concat css)"
proof (induction css)
  case Nil
  show ?case by (simp add: and_then_Inr)
next
  case (Cons cs css)
  show ?case
  proof (cases "traverse f cs")
    case (Inl e)
    then show ?thesis by (simp add: traverse_append and_then_Inl)
  next
    case (Inr a)
    show ?thesis
    proof (cases "traverse (traverse f) css")
      case (Inl e)
      with Cons have "traverse f (concat css) = Inl e"
        by (simp add: and_then_Inl)
      then show ?thesis
        by (simp add: traverse_append Inr Inl and_then_Inr and_then_Inl)
    next
      case r: (Inr w)
      with Cons have "traverse f (concat css) = Inr (concat w)"
        by (simp add: and_then_Inr)
      then show ?thesis
        by (simp add: traverse_append Inr r and_then_Inr)
    qed
  qed
qed

lemma rewrite_eq:
  assumes "0 < n"
  shows "rewrite fs docs n S =
     write_file fs (take (nat (boundary (length docs) n n)) docs) S True True"
proof -
  obtain cs where cs: "chunk_list docs n = Inr cs"
    using assms by (simp add: chunk_list_def)
  have "rewrite fs docs n S =
      and_then (traverse (\<lambda>file_path_list. write_file fs file_path_list S True True) cs)
        (\<lambda>w. Inr (concat w))"
    using assms by (simp add: rewrite_def cs and_then_Inr Parallel_def)
  also have "\<dots> = write_file fs (concat cs) S True True"
    unfolding write_file_def by (rule traverse_concat)
  finally show ?thesis
    by (simp add: chunk_list_concat(1)[OF assms cs])
qed

text \<open>
  C6. For every list of documents and every singleton set, the rewriting phase with
  \<open>n_jobs = 1\<close> and with \<open>n_jobs = 4\<close> fails on the same file or writes the same files
  with the same lines; and a whole run with \<open>n_jobs = 1\<close> has the result of the run with
  \<open>n_jobs = 4\<close> on the same input and the same draws.
\<close>

theorem jobs_1_4:
  "rewrite fs processing_list 1 singletons = rewrite fs processing_list 4 singletons
   \<and> prep_w2v re_other fs input_dir 1 ratio_unknown lowercase replace_digits draws
     = prep_w2v re_other fs input_dir 4 ratio_unknown lowercase replace_digits draws"
proof -
  have r: "rewrite fs docs 1 S = rewrite fs docs 4 S" for docs S
  proof -
    obtain F where F: "fl (of_nat (length docs)) = of_nat F"
      using fl_of_nat by blast
    show ?thesis
      by (simp add: rewrite_eq boundary_last_1[OF F] boundary_last_4[OF F])
  qed
  have p: "Parallel 1 f tasks = Parallel 4 f tasks" for f :: "document \<Rightarrow> error + table" and tasks
    by (simp add: Parallel_def)
  show ?thesis
    by (simp add: prep_w2v_def r p)
qed

section \<open>Whole runs\<close>

lemma traverse_Inr:
  assumes "\<And>x. x \<in> set xs \<Longrightarrow> f x = Inr (g x)"
  shows "traverse f xs = Inr (map g xs)"
  using assms by (induction xs) (simp_all add: and_then_Inr)

lemma traverse_Inl:
  assumes "traverse f xs = Inl e"
  shows "\<exists>x \<in> set xs. f x = Inl e"
  using assms
proof (induction xs)
  case Nil
  then show ?case by simp
next
  case (Cons x xs)
  show ?case
  proof (cases "f x")
    case (Inl e')
    with Cons.prems show ?thesis by (simp add: and_then_Inl)
  next
    case (Inr y)
    with Cons.prems have "traverse f xs = Inl e"
      by (cases "traverse f xs") (simp_all add: and_then_Inr and_then_Inl)
    with Cons.IH show ?thesis by auto
  qed
qed

lemma read_lines_error: "read_lines fs root_path filename = Inl e \<Longrightarrow> e = IOError \<or> e = DecodeError"
  by (auto simp: read_lines_def split: option.splits dirtree.splits content.splits)

lemma write_file_Nil: "write_file fs [] S lowercase replace_digits = Inr []"
  by (simp add: write_file_def)

lemma rewrite_1:
  assumes "int (length docs) \<le> 2 ^ 50"
  shows "rewrite fs docs 1 S = write_file fs docs S True True"
  using assms by (simp add: rewrite_eq boundary_last)

lemma rewrite_negative:
  assumes "n < 0"
  shows "rewrite fs docs n S = Inr []"
  using assms by (simp add: rewrite_def chunk_list_def range_def Parallel_def and_then_Inr)

lemma rewrite_Nil:
  assumes "n \<noteq> 0"
  shows "rewrite fs [] n S = Inr []"
proof (cases "0 < n")
  case True
  then show ?thesis by (simp add: rewrite_eq write_file_Nil)
next
  case False
  with assms have "n < 0" by simp
  then show ?thesis by (rule rewrite_negative)
qed

lemmas run_eval = prep_w2v_def collect_def os_walk_def match_txt_def subdir_of_def re_sub_def
  special_def path_str_def match_char_def remove_abs_def
  Parallel_def gather_token_count_def read_lines_def and_then_def count_lines_def combine_def
  assemble_def write_file_def write_lines_def rewrite_1 string_eval

text \<open>
  C1, where the code departs from the claim. \<open>prep_w2v\<close> calls \<open>_write_file\<close> without
  its two flags, so the rewriting phase lowercases and folds digits whatever \<open>prep_w2v\<close>
  was given. Run with both flags off on a document whose line is \<open>Patient 2\<close>, the
  counting phase counts \<open>Patient\<close> and \<open>2\<close>, and the rewriting phase writes \<open>patient 0\<close>.
\<close>

theorem flags_not_forwarded:
  "prep_w2v re_other corpus [''in''] 1 0 False False (\<lambda>n. 0)
     = Inr \<lparr>all_tokens = [(''Patient'', 1), (''2'', 1)], token_nb = 2,
            singletons_all = {''Patient''}, singletons_sample = {},
            documents = [(([], ''a.txt''), [''patient 0'' @ [newline]])]\<rparr>"
  by (simp add: corpus_def run_eval)

text \<open>What a run that completes is made of.\<close>

lemma prep_w2v_Inr:
  assumes "prep_w2v re_other fs input_dir n_jobs ratio_unknown lowercase replace_digits draws = Inr r"
  shows "\<exists>processing_list results tokens nb s_all s_sample calls written.
      collect re_other fs input_dir = Inr processing_list
      \<and> Parallel n_jobs (\<lambda>(root_path, filename, subdir).
          gather_token_count fs root_path filename lowercase replace_digits) processing_list
          = Inr results
      \<and> combine results = (tokens, nb)
      \<and> assemble ratio_unknown draws tokens = (s_all, s_sample, calls)
      \<and> rewrite fs processing_list n_jobs s_sample = Inr written
      \<and> r = \<lparr>all_tokens = tokens, token_nb = nb, singletons_all = s_all,
              singletons_sample = s_sample, documents = written\<rparr>"
proof -
  from assms obtain processing_list where docs: "collect re_other fs input_dir = Inr processing_list"
    by (cases "collect re_other fs input_dir") (simp_all add: prep_w2v_def and_then_Inl)
  let ?count = "Parallel n_jobs (\<lambda>(root_path, filename, subdir).
      gather_token_count fs root_path filename lowercase replace_digits) processing_list"
  from assms obtain results where res: "?count = Inr results"
    by (cases ?count) (simp_all add: prep_w2v_def docs and_then_Inl and_then_Inr)
  obtain tokens nb where c: "combine results = (tokens, nb)"
    by (cases "combine results")
  obtain s_all s_sample calls where a: "assemble ratio_unknown draws tokens = (s_all, s_sample, calls)"
    by (cases "assemble ratio_unknown draws tokens")
  from assms obtain written where w: "rewrite fs processing_list n_jobs s_sample = Inr written"
    by (cases "rewrite fs processing_list n_jobs s_sample")
       (simp_all add: prep_w2v_def docs res c a and_then_Inl and_then_Inr)
  from assms have "r = \<lparr>all_tokens = tokens, token_nb = nb, singletons_all = s_all,
              singletons_sample = s_sample, documents = written\<rparr>"
    by (simp add: prep_w2v_def docs res c a w and_then_Inr)
  with docs res c a w show ?thesis by blast
qed

lemma prep_w2v_tables:
  assumes "prep_w2v re_other fs input_dir n_jobs ratio_unknown lowercase replace_digits draws = Inr r"
  shows "\<exists>processing_list results.
      collect re_other fs input_dir = Inr processing_list
      \<and> Parallel n_jobs (\<lambda>(root_path, filename, subdir).
          gather_token_count fs root_path filename lowercase replace_digits) processing_list
          = Inr results
      \<and> all_tokens r = fst (combine results) \<and> token_nb r = snd (combine results)"
  using prep_w2v_Inr[OF assms] by fastforce

lemma prep_w2v_singletons:
  assumes "prep_w2v re_other fs input_dir n_jobs ratio_unknown lowercase replace_digits draws = Inr r"
  shows "singletons_sample r \<subseteq> singletons_all r"
    and "\<forall>t \<in> singletons_all r. get (all_tokens r) t = 1 \<and> \<not> search_digit t"
proof -
  from prep_w2v_Inr[OF assms]
  obtain results tokens nb s_all s_sample calls written
    where c: "combine results = (tokens, nb)"
      and a: "assemble ratio_unknown draws tokens = (s_all, s_sample, calls)"
      and r: "r = \<lparr>all_tokens = tokens, token_nb = nb, singletons_all = s_all,
              singletons_sample = s_sample, documents = written\<rparr>"
    by blast
  have d: "distinct (map fst tokens)"
    using combine_distinct[of results] by (simp add: c)
  show "singletons_sample r \<subseteq> singletons_all r"
    using assemble_sets(2)[OF a] by (simp add: r)
  show "\<forall>t \<in> singletons_all r. get (all_tokens r) t = 1 \<and> \<not> search_digit t"
    using assemble_sets(1)[OF a] get_item[OF d] by (auto simp: r)
qed

lemma prep_w2v_no_documents:
  assumes "collect re_other fs input_dir = Inr []" "n_jobs \<noteq> 0"
  shows "prep_w2v re_other fs input_dir n_jobs ratio_unknown lowercase replace_digits draws
     = Inr nothing"
  using assms
  by (simp add: prep_w2v_def Parallel_def and_then_Inr combine_def assemble_def rewrite_Nil
      nothing_def)

section \<open>Collecting the files\<close>

lemma collect_missing:
  assumes "lookup_dir fs input_dir = None"
  shows "collect re_other fs input_dir = Inr []"
  using assms by (simp add: collect_def os_walk_def and_then_Inr)

lemma collect_no_match:
  assumes "\<forall>(root_path, dirs, files) \<in> set (os_walk fs input_dir). \<forall>f \<in> set files. \<not> match_txt f"
  shows "collect re_other fs input_dir = Inr []"
proof -
  let ?F = "\<lambda>(root_path, dirs, files).
      traverse (\<lambda>filename. and_then (subdir_of re_other input_dir root_path)
                            (\<lambda>subdir. Inr (root_path, filename, subdir)))
               (filter match_txt files)"
  have "traverse ?F (os_walk fs input_dir)
      = Inr (map (\<lambda>x. ([] :: document list)) (os_walk fs input_dir))"
  proof (rule traverse_Inr)
    fix x assume x: "x \<in> set (os_walk fs input_dir)"
    obtain root_path dirs files where "x = (root_path, dirs, files)"
      by (cases x)
    with x assms have "filter match_txt files = []"
      by (auto simp: filter_empty_conv)
    with \<open>x = (root_path, dirs, files)\<close> show "?F x = Inr []"
      by simp
  qed
  then show ?thesis
    by (simp add: collect_def and_then_Inr)
qed

text \<open>
  C7, amended. Collecting the files does not fail when the input directory does not
  exist: the walk yields nothing and the list of documents is empty, with no
  \<open>NotFoundError\<close>. It does not fail either when the directory exists and no file met
  by the walk has a matching name: the list is empty then too.
\<close>

theorem discovery_empty:
  "(lookup_dir fs input_dir = None \<longrightarrow> collect re_other fs input_dir = Inr [])
   \<and> ((\<forall>(root_path, dirs, files) \<in> set (os_walk fs input_dir). \<forall>f \<in> set files. \<not> match_txt f)
        \<longrightarrow> collect re_other fs input_dir = Inr [])"
  using collect_missing collect_no_match by blast

text \<open>
  A missing directory, and a directory whose only file is not a text file. The name of
  the second is not a regular expression that compiles: no file matches, so it is never
  compiled.
\<close>

theorem discovery_empty_witness:
  "\<forall>re_other.
     lookup_dir (Dir [] []) [''missing''] = None
     \<and> collect re_other (Dir [] []) [''missing''] = Inr []
     \<and> os_walk run1_md [''run(1''] = [([''run(1''], [], [''notes.md''])]
     \<and> \<not> match_txt ''notes.md''
     \<and> collect re_other run1_md [''run(1''] = Inr []"
proof
  fix re_other :: re_lib
  have h1: "lookup_dir (Dir [] []) [''missing''] = None" by simp
  have w: "os_walk run1_md [''run(1''] = [([''run(1''], [], [''notes.md''])]"
    by (simp add: run1_md_def os_walk_def)
  have m: "\<not> match_txt ''notes.md''"
    by (simp add: match_txt_def newline_def)
  have h2: "\<forall>(root_path, dirs, files) \<in> set (os_walk run1_md [''run(1'']).
         \<forall>f \<in> set files. \<not> match_txt f"
    using m by (simp add: w)
  show "lookup_dir (Dir [] []) [''missing''] = None
     \<and> collect re_other (Dir [] []) [''missing''] = Inr []
     \<and> os_walk run1_md [''run(1''] = [([''run(1''], [], [''notes.md''])]
     \<and> \<not> match_txt ''notes.md''
     \<and> collect re_other run1_md [''run(1''] = Inr []"
    using h1 h2 w m
      discovery_empty[of "Dir [] []" "[''missing'']" re_other]
      discovery_empty[of run1_md "[''run(1'']" re_other]
    by blast
qed

text \<open>
  C7 as stated fails: on an input directory that does not exist the collection gives the
  empty list and the run completes, with no \<open>NotFoundError\<close>.
\<close>

theorem missing_input_counterexample:
  "\<forall>re_other.
     lookup_dir (Dir [] []) [''missing''] = None
     \<and> collect re_other (Dir [] []) [''missing''] = Inr []
     \<and> prep_w2v re_other (Dir [] []) [''missing''] 1 (1 / 2) True True (\<lambda>n. 0) = Inr nothing
     \<and> prep_w2v re_other (Dir [] []) [''missing''] 1 (1 / 2) True True (\<lambda>n. 0)
         \<noteq> Inl NotFoundError"
  by (simp add: prep_w2v_no_documents collect_missing)

text \<open>
  Where the collection does fail. Line 39 gives the path of the input directory to
  \<open>re.sub\<close> as its pattern. Once a file matches, a path that does not compile raises
  \<open>re.error\<close>, and it ends the run before anything is counted.
\<close>

lemma collect_pattern_error: "collect re_other run1_txt [''run(1''] = Inl ReError"
  by (simp add: run1_txt_def collect_def os_walk_def match_txt_def subdir_of_def re_sub_def
      special_def path_str_def and_then_def newline_def)

lemma prep_w2v_pattern_error:
  "prep_w2v re_other run1_txt [''run(1''] n_jobs ratio_unknown lowercase replace_digits draws
     = Inl ReError"
  by (simp add: prep_w2v_def collect_pattern_error and_then_Inl)

text \<open>
  Every match is deleted, not the one at the start only: under the input directory
  \<open>/in\<close>, the directory \<open>/in/x/in\<close> has the same place in the output as \<open>/in/x\<close>. A dot
  of the path of the input directory matches any character. Under the root of the file
  system, every separator is deleted.
\<close>

lemma subdir_every_match:
  "subdir_of re_other [''in''] [''in'', ''x''] = Inr ''x''"
  "subdir_of re_other [''in''] [''in'', ''x'', ''in''] = Inr ''x''"
  "subdir_of re_other [''a.b''] [''a.b'', ''axb'', ''c''] = Inr ''c''"
  "subdir_of re_other [] [''in'', ''x''] = Inr ''inx''"
  by (simp_all add: subdir_of_def re_sub_def special_def path_str_def match_char_def
      remove_abs_def newline_def)

lemma subdir_of_error: "subdir_of re_other input_dir root_path = Inl e \<Longrightarrow> e = ReError"
  by (auto simp: subdir_of_def re_sub_def split: sum.splits if_splits option.splits)

lemma collect_error:
  assumes "collect re_other fs input_dir = Inl e"
  shows "e = ReError"
proof -
  let ?G = "\<lambda>root_path filename. and_then (subdir_of re_other input_dir root_path)
                            (\<lambda>subdir. Inr (root_path, filename, subdir))"
  let ?F = "\<lambda>(root_path, dirs, files). traverse (?G root_path) (filter match_txt files)"
  from assms have "traverse ?F (os_walk fs input_dir) = Inl e"
    by (cases "traverse ?F (os_walk fs input_dir)")
       (simp_all add: collect_def and_then_Inl and_then_Inr)
  from traverse_Inl[OF this] obtain x
    where "x \<in> set (os_walk fs input_dir)" and x: "?F x = Inl e" ..
  obtain root_path dirs files where "x = (root_path, dirs, files)"
    by (cases x)
  with x have "traverse (?G root_path) (filter match_txt files) = Inl e"
    by simp
  from traverse_Inl[OF this] obtain filename
    where "filename \<in> set (filter match_txt files)" and "?G root_path filename = Inl e" ..
  then have "subdir_of re_other input_dir root_path = Inl e"
    by (cases "subdir_of re_other input_dir root_path") (simp_all add: and_then_Inl and_then_Inr)
  then show ?thesis by (rule subdir_of_error)
qed

section \<open>The configuration\<close>

lemma gather_error:
  "gather_token_count fs root_path filename lowercase replace_digits = Inl e
   \<Longrightarrow> e = IOError \<or> e = DecodeError"
  using read_lines_error[of fs root_path filename e]
  by (cases "read_lines fs root_path filename")
     (simp_all add: gather_token_count_def and_then_Inl and_then_Inr)

lemma write_file_error:
  assumes "write_file fs docs S lowercase replace_digits = Inl e"
  shows "e = IOError \<or> e = DecodeError"
proof -
  from traverse_Inl[OF assms[unfolded write_file_def]]
  obtain doc where "doc \<in> set docs" and doc: "(case doc of (root_path, filename, subdir) \<Rightarrow>
      and_then (read_lines fs root_path filename)
        (\<lambda>lines. Inr ((subdir, filename), write_lines lowercase replace_digits S lines))) = Inl e"
    ..
  obtain root_path filename subdir where "doc = (root_path, filename, subdir)"
    by (cases doc)
  with doc have "and_then (read_lines fs root_path filename)
       (\<lambda>lines. Inr ((subdir, filename), write_lines lowercase replace_digits S lines)) = Inl e"
    by simp
  then show ?thesis
    using read_lines_error[of fs root_path filename e]
    by (cases "read_lines fs root_path filename") (simp_all add: and_then_Inl and_then_Inr)
qed

lemma rewrite_error:
  assumes "n \<noteq> 0" "rewrite fs docs n S = Inl e"
  shows "e = IOError \<or> e = DecodeError"
proof -
  obtain cs where cs: "chunk_list docs n = Inr cs"
    using assms(1) by (simp add: chunk_list_def)
  with assms have "traverse (\<lambda>file_path_list. write_file fs file_path_list S True True) cs = Inl e"
    by (cases "traverse (\<lambda>file_path_list. write_file fs file_path_list S True True) cs")
       (simp_all add: rewrite_def Parallel_def and_then_Inl and_then_Inr)
  from traverse_Inl[OF this] show ?thesis
    using write_file_error by blast
qed

text \<open>The errors of a run.\<close>

lemma prep_w2v_error:
  assumes "prep_w2v re_other fs input_dir n_jobs ratio_unknown lowercase replace_digits draws = Inl e"
  shows "e = ReError \<or> e = IOError \<or> e = DecodeError \<or> e = ValueError"
proof (cases "collect re_other fs input_dir")
  case (Inl e')
  with assms have "e' = e"
    by (simp add: prep_w2v_def and_then_Inl)
  with collect_error[OF Inl] show ?thesis by simp
next
  case docs: (Inr processing_list)
  show ?thesis
  proof (cases "n_jobs = 0")
    case True
    with assms show ?thesis
      by (simp add: prep_w2v_def docs Parallel_def and_then_Inl and_then_Inr)
  next
    case False
    let ?count = "traverse (\<lambda>(root_path, filename, subdir).
        gather_token_count fs root_path filename lowercase replace_digits) processing_list"
    show ?thesis
    proof (cases ?count)
      case (Inl e')
      with assms False have "e' = e"
        by (simp add: prep_w2v_def docs Parallel_def and_then_Inl and_then_Inr)
      with traverse_Inl[OF Inl] gather_error show ?thesis by fast
    next
      case (Inr results)
      obtain tokens nb where c: "combine results = (tokens, nb)"
        by (cases "combine results")
      obtain s_all s_sample calls where a: "assemble ratio_unknown draws tokens = (s_all, s_sample, calls)"
        by (cases "assemble ratio_unknown draws tokens")
      from assms False Inr have "rewrite fs processing_list n_jobs s_sample = Inl e"
        by (cases "rewrite fs processing_list n_jobs s_sample")
           (simp_all add: prep_w2v_def docs Parallel_def and_then_Inl and_then_Inr c a)
      from rewrite_error[OF False this] show ?thesis by blast
    qed
  qed
qed

text \<open>
  C8, amended. \<open>prep_w2v\<close> checks neither \<open>n_jobs\<close> nor \<open>ratio_unknown\<close> and never
  fails with \<open>ConfigError\<close>; and a run with a negative \<open>n_jobs\<close> that completes has
  written no document.
\<close>

theorem no_config_error:
  "prep_w2v re_other fs input_dir n_jobs ratio_unknown lowercase replace_digits draws
     \<noteq> Inl ConfigError
   \<and> (n_jobs < 0
        \<and> prep_w2v re_other fs input_dir n_jobs ratio_unknown lowercase replace_digits draws
            = Inr r
        \<longrightarrow> documents r = [])"
proof (intro conjI impI)
  show "prep_w2v re_other fs input_dir n_jobs ratio_unknown lowercase replace_digits draws
      \<noteq> Inl ConfigError"
    using prep_w2v_error[of re_other fs input_dir n_jobs ratio_unknown lowercase replace_digits
        draws ConfigError]
    by auto
next
  assume h: "n_jobs < 0
      \<and> prep_w2v re_other fs input_dir n_jobs ratio_unknown lowercase replace_digits draws = Inr r"
  with prep_w2v_Inr[of re_other fs input_dir n_jobs ratio_unknown lowercase replace_digits draws r]
  show "documents r = []"
    by (auto simp: rewrite_negative)
qed

lemma corpus_run_ratio_2:
  "prep_w2v re_other corpus [''in''] 1 2 True True (\<lambda>n. 1 / 2)
     = Inr \<lparr>all_tokens = [(''patient'', 1), (''0'', 1)], token_nb = 2,
            singletons_all = {''patient''}, singletons_sample = {''patient''},
            documents = [(([], ''a.txt''), [''#unk# 0'' @ [newline]])]\<rparr>"
  by (simp add: corpus_def run_eval)

lemma corpus_run_negative:
  "prep_w2v re_other corpus [''in''] (- 1) (- 1 / 2) True True (\<lambda>n. 1 / 2)
     = Inr \<lparr>all_tokens = [(''patient'', 1), (''0'', 1)], token_nb = 2,
            singletons_all = {''patient''}, singletons_sample = {},
            documents = []\<rparr>"
  by (simp add: corpus_def run_eval rewrite_negative)

text \<open>
  The corpus of one document with \<open>n_jobs = - 1\<close> and the ratio \<open>- 1 / 2\<close>: the run
  completes and writes nothing; with the ratio 2 it does not fail with \<open>ConfigError\<close>.
\<close>

theorem no_config_error_witness:
  "\<forall>re_other.
     (- 1 :: int) < 0
     \<and> prep_w2v re_other corpus [''in''] (- 1) (- 1 / 2) True True (\<lambda>n. 1 / 2)
       = Inr \<lparr>all_tokens = [(''patient'', 1), (''0'', 1)], token_nb = 2,
              singletons_all = {''patient''}, singletons_sample = {},
              documents = []\<rparr>
     \<and> documents \<lparr>all_tokens = [(''patient'', 1), (''0'', 1)], token_nb = 2,
                   singletons_all = {''patient''}, singletons_sample = {},
                   documents = []\<rparr> = []
     \<and> prep_w2v re_other corpus [''in''] 1 2 True True (\<lambda>n. 1 / 2) \<noteq> Inl ConfigError"
proof
  fix re_other :: re_lib
  have p: "(- 1 :: int) < 0" by simp
  show "(- 1 :: int) < 0
     \<and> prep_w2v re_other corpus [''in''] (- 1) (- 1 / 2) True True (\<lambda>n. 1 / 2)
       = Inr \<lparr>all_tokens = [(''patient'', 1), (''0'', 1)], token_nb = 2,
              singletons_all = {''patient''}, singletons_sample = {},
              documents = []\<rparr>
     \<and> documents \<lparr>all_tokens = [(''patient'', 1), (''0'', 1)], token_nb = 2,
                   singletons_all = {''patient''}, singletons_sample = {},
                   documents = []\<rparr> = []
     \<and> prep_w2v re_other corpus [''in''] 1 2 True True (\<lambda>n. 1 / 2) \<noteq> Inl ConfigError"
    using p corpus_run_negative[of re_other]
      no_config_error[of re_other corpus "[''in'']" "- 1" "- 1 / 2" True True "\<lambda>n. 1 / 2"
        "\<lparr>all_tokens = [(''patient'', 1), (''0'', 1)], token_nb = 2,
          singletons_all = {''patient''}, singletons_sample = {}, documents = []\<rparr>"]
      no_config_error[of re_other corpus "[''in'']" 1 2 True True "\<lambda>n. 1 / 2"]
    by blast
qed

text \<open>
  C8 as stated fails: with the ratio 2 the run completes and samples every singleton;
  with \<open>n_jobs = - 1\<close> and the ratio \<open>- 1 / 2\<close> it completes, samples nothing and writes
  nothing.
\<close>

theorem no_validation_counterexample:
  "\<forall>re_other.
     prep_w2v re_other corpus [''in''] 1 2 True True (\<lambda>n. 1 / 2)
       = Inr \<lparr>all_tokens = [(''patient'', 1), (''0'', 1)], token_nb = 2,
              singletons_all = {''patient''}, singletons_sample = {''patient''},
              documents = [(([], ''a.txt''), [''#unk# 0'' @ [newline]])]\<rparr>
     \<and> prep_w2v re_other corpus [''in''] (- 1) (- 1 / 2) True True (\<lambda>n. 1 / 2)
       = Inr \<lparr>all_tokens = [(''patient'', 1), (''0'', 1)], token_nb = 2,
              singletons_all = {''patient''}, singletons_sample = {},
              documents = []\<rparr>"
  using corpus_run_ratio_2 corpus_run_negative by blast

end
